theory Spec2Isabelle
  imports Main "HOL-Library.AList" "HOL-Library.Multiset"
begin

section \<open>Data model of \<^verbatim>\<open>main.py\<close>\<close>

text \<open>
  Nodes are Python strings (\<^verbatim>\<open>'S0'\<close>, \<^verbatim>\<open>'N1'\<close>), the input of a step is the
  two-character slice of the trace and the required output its third character. A
  transition of the path is the source's 6-tuple
  \<^verbatim>\<open>(current_node, input, required_output, destination, extra, new_node)\<close>.
  The dictionary \<^verbatim>\<open>extra_transitions\<close> is an association list from
  \<^verbatim>\<open>(node, inp)\<close> to \<^verbatim>\<open>(dest, req_out)\<close>.
\<close>

type_synonym node = string
type_synonym step = "string \<times> char"
type_synonym transition = "node \<times> string \<times> char \<times> node \<times> bool \<times> bool"
type_synonym extra = "((node \<times> string) \<times> (node \<times> char)) list"

text \<open>What \<^verbatim>\<open>dfs\<close> returns when it is not \<^verbatim>\<open>None\<close>:
  \<^verbatim>\<open>(cost, path, extra_transitions, new_node_count_final)\<close>.\<close>

type_synonym found = "nat \<times> transition list \<times> extra \<times> nat"

datatype error = ValueError | IndexError

text \<open>The pre-defined transitions of the four given nodes, as the nested dictionary
  of the source: node, then two-bit input, then (destination, output).\<close>

definition DEFINED_TRANSITIONS :: "(node \<times> (string \<times> (node \<times> char)) list) list" where
  "DEFINED_TRANSITIONS =
    [(''S0'', [(''01'', (''S1'', CHR ''1'')), (''11'', (''S1'', CHR ''0'')), (''10'', (''S2'', CHR ''0''))]),
     (''S1'', [(''01'', (''S3'', CHR ''1''))]),
     (''S2'', [(''00'', (''S3'', CHR ''1'')), (''11'', (''S1'', CHR ''0'')), (''10'', (''S3'', CHR ''0''))]),
     (''S3'', [(''01'', (''S0'', CHR ''1''))])]"

definition INITIAL_NODES :: "node list" where
  "INITIAL_NODES = map fst DEFINED_TRANSITIONS"

text \<open>\<^verbatim>\<open>current_node in DEFINED_TRANSITIONS and inp in DEFINED_TRANSITIONS[current_node]\<close>,
  with the entry when both hold.\<close>

definition defined_lookup :: "node \<Rightarrow> string \<Rightarrow> (node \<times> char) option" where
  "defined_lookup current_node inp =
    (case map_of DEFINED_TRANSITIONS current_node of
       None \<Rightarrow> None
     | Some row \<Rightarrow> map_of row inp)"

text \<open>Python's \<^verbatim>\<open>str\<close> on a non-negative integer: its decimal digits.\<close>

definition digit :: "nat \<Rightarrow> char" where
  "digit d = char_of (48 + d)"

fun str :: "nat \<Rightarrow> string" where
  "str n = (if n < 10 then [digit n] else str (n div 10) @ [digit (n mod 10)])"

declare str.simps [simp del]

definition new_label :: "nat \<Rightarrow> node" where
  "new_label k = ''N'' @ str k"

text \<open>The step list of \<^verbatim>\<open>solve\<close>:
  \<^verbatim>\<open>[(s[3*i:3*i+2], s[3*i+2]) for i in range(n)]\<close> with \<^verbatim>\<open>n = len(s) // 3\<close>;
  every index read is below \<^verbatim>\<open>3 * n\<close>.\<close>

definition steps_of :: "string \<Rightarrow> step list" where
  "steps_of binary_string =
    map (\<lambda>i. (take 2 (drop (3 * i) binary_string), binary_string ! (3 * i + 2)))
      [0 ..< length binary_string div 3]"

text \<open>The nodes an added transition may lead to: a copy of \<^verbatim>\<open>INITIAL_NODES\<close> to which
  the destination of every extra transition is added. It is a Python set; the list
  holds its elements once each.\<close>

definition available_nodes :: "extra \<Rightarrow> node list" where
  "available_nodes extra_transitions =
    remdups (INITIAL_NODES @ map (\<lambda>(_, (dest, _)). dest) extra_transitions)"

text \<open>The order in which a \<^verbatim>\<open>for\<close> loop visits a Python set is not fixed by the
  language (for strings it changes with the hash seed of the process). The model takes
  it as a parameter \<open>trav\<close>, which maps the elements of a set to the order of the visit:
  a permutation. Every property of the search below is proved for every such \<open>trav\<close>.\<close>

definition traversal :: "(node list \<Rightarrow> node list) \<Rightarrow> bool" where
  "traversal trav = (\<forall>xs. mset (trav xs) = mset xs)"

section \<open>The search\<close>

text \<open>\<^verbatim>\<open>best = candidate if best is None or candidate[0] < best[0] else best\<close>\<close>

definition improve :: "found option \<Rightarrow> found \<Rightarrow> found option" where
  "improve best candidate =
    (case best of
       None \<Rightarrow> Some candidate
     | Some b \<Rightarrow> if fst candidate < fst b then Some candidate else Some b)"

text \<open>One recursive call and the lines that follow it: when the call returned a
  result, the candidate is built from it (the added cost \<open>k\<close>, the transition \<open>t\<close> in
  front of the path) and compared with \<open>best\<close>. An exception of the call leaves the
  function at once.\<close>

definition try_branch ::
  "error + found option \<Rightarrow> nat \<Rightarrow> transition \<Rightarrow> error + found option \<Rightarrow> error + found option" where
  "try_branch best k t res =
    (case best of
       Inl e \<Rightarrow> Inl e
     | Inr b \<Rightarrow>
        (case res of
           Inl e \<Rightarrow> Inl e
         | Inr None \<Rightarrow> Inr b
         | Inr (Some (cost_next, path_next, et_next, new_node_final)) \<Rightarrow>
             Inr (improve b (k + cost_next, t # path_next, et_next, new_node_final))))"

text \<open>\<^verbatim>\<open>dfs(i, current_node, extra_transitions_state, new_node_count)\<close> of the source,
  with the step list of the enclosing \<^verbatim>\<open>solve\<close> and the traversal order as further
  arguments. \<open>Inr None\<close> is Python's \<^verbatim>\<open>None\<close>; \<^verbatim>\<open>steps[i]\<close> beyond the list raises
  \<^verbatim>\<open>IndexError\<close>. The function is defined inside \<^verbatim>\<open>solve\<close>, so its \<^verbatim>\<open>lru_cache\<close> holds
  results of calls of the same invocation only, keyed by the four arguments; a cached
  value is the value of the body at these arguments. The recursion ends because \<open>i\<close>
  grows up to the length of the step list; the limits of the Python stack and of the
  running time are not modelled.

  The successive values of \<^verbatim>\<open>best\<close> are bound by \<open>let\<close>. Termination depends on the
  index only, so the congruence rule that records the bound values is left out while
  the function is defined.\<close>

declare let_cong [fundef_cong del]

function dfs ::
  "step list \<Rightarrow> (node list \<Rightarrow> node list) \<Rightarrow> nat \<Rightarrow> node \<Rightarrow> extra \<Rightarrow> nat \<Rightarrow> error + found option" where
  "dfs steps trav i current_node extra_transitions new_node_count =
    (if i = length steps then Inr (Some (0, [], extra_transitions, new_node_count))
     else if length steps < i then Inl IndexError
     else
       let (inp, req_out) = steps ! i;
           best = Inr None;
           best =
             (case defined_lookup current_node inp of
                None \<Rightarrow> best
              | Some (dest, out) \<Rightarrow>
                  if out = req_out
                  then try_branch best 0 (current_node, inp, req_out, dest, False, False)
                         (dfs steps trav (i + 1) dest extra_transitions new_node_count)
                  else best);
           best =
             (case map_of extra_transitions (current_node, inp) of
                None \<Rightarrow> best
              | Some (dest, stored_out) \<Rightarrow>
                  if stored_out = req_out
                  then try_branch best 0 (current_node, inp, req_out, dest, False, False)
                         (dfs steps trav (i + 1) dest extra_transitions new_node_count)
                  else best)
       in
         if defined_lookup current_node inp = None
            \<and> map_of extra_transitions (current_node, inp) = None
         then
           let best =
                 fold (\<lambda>dest best.
                         try_branch best 1 (current_node, inp, req_out, dest, True, False)
                           (dfs steps trav (i + 1) dest
                              (AList.update (current_node, inp) (dest, req_out) extra_transitions)
                              new_node_count))
                   (trav (available_nodes extra_transitions)) best;
               new_node_label = new_label (new_node_count + 1)
           in try_branch best (1 + 1) (current_node, inp, req_out, new_node_label, True, True)
                (dfs steps trav (i + 1) new_node_label
                   (AList.update (current_node, inp) (new_node_label, req_out) extra_transitions)
                   (new_node_count + 1))
         else best)"
  by pat_completeness auto
termination
  by (relation "measure (\<lambda>(steps, trav, i, current_node, extra_transitions, new_node_count).
        length steps - i)") auto

declare dfs.simps [simp del]

declare let_cong [fundef_cong]

text \<open>What \<^verbatim>\<open>solve\<close> prints, with the start node and the extra transitions it has
  unpacked from \<^verbatim>\<open>best_overall\<close>.\<close>

record report =
  total_extra_cost :: nat
  extra_path_count :: nat
  total_new_nodes :: nat
  best_path :: "transition list"
  start_node :: node
  extra_transitions_used :: extra

datatype outcome = NoValidPath | Report report

text \<open>The loop over the start nodes: a start replaces \<^verbatim>\<open>best_overall\<close> only when its
  cost is strictly smaller.\<close>

definition try_start ::
  "step list \<Rightarrow> (node list \<Rightarrow> node list) \<Rightarrow> node \<Rightarrow> error + (found \<times> node) option
     \<Rightarrow> error + (found \<times> node) option" where
  "try_start steps trav start best_overall =
    (case best_overall of
       Inl e \<Rightarrow> Inl e
     | Inr bo \<Rightarrow>
        (case dfs steps trav 0 start [] 0 of
           Inl e \<Rightarrow> Inl e
         | Inr None \<Rightarrow> Inr bo
         | Inr (Some res) \<Rightarrow>
            (case bo of
               None \<Rightarrow> Inr (Some (res, start))
             | Some b \<Rightarrow> if fst res < fst (fst b) then Inr (Some (res, start)) else Inr bo)))"

text \<open>\<^verbatim>\<open>solve(binary_string)\<close>: the length check raises \<^verbatim>\<open>ValueError\<close> before anything
  else is done. Otherwise the result is \<open>NoValidPath\<close> when the function prints
  \<^verbatim>\<open>No valid path found.\<close>, and the report it prints.\<close>

definition solve :: "(node list \<Rightarrow> node list) \<Rightarrow> string \<Rightarrow> error + outcome" where
  "solve trav binary_string =
    (if length binary_string mod 3 \<noteq> 0 then Inl ValueError
     else
       let steps = steps_of binary_string in
       case fold (try_start steps trav) (trav INITIAL_NODES) (Inr None) of
         Inl e \<Rightarrow> Inl e
       | Inr None \<Rightarrow> Inr NoValidPath
       | Inr (Some ((total_cost, path, et, new_node_final), start)) \<Rightarrow>
           Inr (Report
             \<lparr>total_extra_cost = total_cost,
              extra_path_count =
                length (filter (\<lambda>(frm, inp, outp, dest, is_extra, is_new). is_extra) path),
              total_new_nodes = new_node_final,
              best_path = path,
              start_node = start,
              extra_transitions_used = et\<rparr>))"

section \<open>The calls of one step\<close>

text \<open>The body of \<^verbatim>\<open>dfs\<close> makes its recursive calls one after the other and folds
  their results into \<^verbatim>\<open>best\<close>. \<open>moves\<close> lists these calls in the order of the source
  (the pre-defined transition, the stored extra transition, one added transition for
  each available node in traversal order, the added transition to a new node): each
  entry holds the cost the branch adds, the transition it puts in front of the path, and
  the \<^verbatim>\<open>extra_transitions\<close> and \<^verbatim>\<open>new_node_count\<close> the call receives. Lemma
  \<open>dfs_unfold\<close> below shows that \<^verbatim>\<open>dfs\<close> is the fold of \<open>take_move\<close> over this list.\<close>

type_synonym move = "nat \<times> transition \<times> extra \<times> nat"

definition moves :: "(node list \<Rightarrow> node list) \<Rightarrow> step \<Rightarrow> node \<Rightarrow> extra \<Rightarrow> nat \<Rightarrow> move list" where
  "moves trav st current_node extra_transitions new_node_count =
    (case st of (inp, req_out) \<Rightarrow>
      (case defined_lookup current_node inp of
         None \<Rightarrow> []
       | Some (dest, out) \<Rightarrow>
           if out = req_out
           then [(0, (current_node, inp, req_out, dest, False, False),
                  extra_transitions, new_node_count)]
           else [])
      @ (case map_of extra_transitions (current_node, inp) of
           None \<Rightarrow> []
         | Some (dest, stored_out) \<Rightarrow>
             if stored_out = req_out
             then [(0, (current_node, inp, req_out, dest, False, False),
                    extra_transitions, new_node_count)]
             else [])
      @ (if defined_lookup current_node inp = None
            \<and> map_of extra_transitions (current_node, inp) = None
         then
           map (\<lambda>dest. (1, (current_node, inp, req_out, dest, True, False),
                  AList.update (current_node, inp) (dest, req_out) extra_transitions,
                  new_node_count))
             (trav (available_nodes extra_transitions))
           @ [(1 + 1, (current_node, inp, req_out, new_label (new_node_count + 1), True, True),
               AList.update (current_node, inp) (new_label (new_node_count + 1), req_out)
                 extra_transitions,
               new_node_count + 1)]
         else []))"

definition destination :: "transition \<Rightarrow> node" where
  "destination t = (case t of (frm, inp, outp, dest, is_extra, is_new) \<Rightarrow> dest)"

definition callee ::
  "step list \<Rightarrow> (node list \<Rightarrow> node list) \<Rightarrow> nat \<Rightarrow> move \<Rightarrow> error + found option" where
  "callee steps trav i m =
    (case m of (k, t, et, cnt) \<Rightarrow> dfs steps trav (i + 1) (destination t) et cnt)"

definition take_move ::
  "(move \<Rightarrow> error + found option) \<Rightarrow> move \<Rightarrow> error + found option \<Rightarrow> error + found option" where
  "take_move call m best = (case m of (k, t, et, cnt) \<Rightarrow> try_branch best k t (call m))"

text \<open>The arguments \<^verbatim>\<open>dfs\<close> is called with, in the search \<^verbatim>\<open>solve\<close> starts from one
  start node: the first call, and every call the body makes at arguments already
  reached.\<close>

inductive visited ::
  "step list \<Rightarrow> (node list \<Rightarrow> node list) \<Rightarrow> node \<Rightarrow> nat \<times> node \<times> extra \<times> nat \<Rightarrow> bool"
  for steps trav start where
    first: "visited steps trav start (0, start, [], 0)"
  | call: "visited steps trav start (i, current_node, extra_transitions, new_node_count)
      \<Longrightarrow> i < length steps
      \<Longrightarrow> (k, t, et, cnt) \<in> set (moves trav (steps ! i) current_node extra_transitions new_node_count)
      \<Longrightarrow> visited steps trav start (i + 1, destination t, et, cnt)"

code_pred visited .

section \<open>Legal completions, as the design describes them\<close>

text \<open>The definitions of this section are not taken from the code. They state what
  the design document calls a legal completion of a trace: at each step
  \<^enum> a pre-defined transition of the current state on the input whose output is the
    required one, at no cost, or
  \<^enum> a transition of the extension set for (state, input) whose output is the
    required one, at no cost, or, when neither table has a transition for
    (state, input),
  \<^enum> a new extension to a state that exists already (a pre-defined state or a
    destination of the extension set), or
  \<^enum> a new extension to a synthesized state, labelled with the next integer tag.
  A transition of a completion is tagged as the source tags it: added, and
  synthesized when it created a state. The cost of a completion is the number of added
  transitions plus the number of synthesized states.\<close>

fun is_added :: "transition \<Rightarrow> bool" where
  "is_added (frm, inp, outp, dest, is_extra, is_new) = is_extra"

fun is_synthesized :: "transition \<Rightarrow> bool" where
  "is_synthesized (frm, inp, outp, dest, is_extra, is_new) = is_new"

definition completion_cost :: "transition list \<Rightarrow> nat" where
  "completion_cost path = length (filter is_added path) + length (filter is_synthesized path)"

fun legal_completion :: "step list \<Rightarrow> node \<Rightarrow> extra \<Rightarrow> nat \<Rightarrow> transition list \<Rightarrow> bool" where
  "legal_completion [] state ext cnt path = (path = [])"
| "legal_completion ((input, required) # rest) state ext cnt [] = False"
| "legal_completion ((input, required) # rest) state ext cnt
      ((frm, inp, outp, dest, added, synthesized) # path) =
    (frm = state \<and> inp = input \<and> outp = required \<and>
     (if \<not> added then
        \<not> synthesized \<and>
        (defined_lookup state input = Some (dest, required)
         \<or> map_of ext (state, input) = Some (dest, required)) \<and>
        legal_completion rest dest ext cnt path
      else
        defined_lookup state input = None \<and> map_of ext (state, input) = None \<and>
        (if synthesized then
           dest = new_label (cnt + 1) \<and>
           legal_completion rest dest (AList.update (state, input) (dest, required) ext) (cnt + 1) path
         else
           dest \<in> set INITIAL_NODES \<union> (\<lambda>(_, (d, _)). d) ` set ext \<and>
           legal_completion rest dest (AList.update (state, input) (dest, required) ext) cnt path)))"

text \<open>The extension set at the end of a path, the table a replay looks inputs up in
  (the pre-defined table extended by the extra transitions), the replay of a path from
  a start state, which returns the outputs it produces and fails when a transition of
  the path is not in the table, and the chaining of a path.\<close>

fun final_extra :: "extra \<Rightarrow> transition list \<Rightarrow> extra" where
  "final_extra ext [] = ext"
| "final_extra ext ((frm, inp, outp, dest, added, synthesized) # path) =
    final_extra (if added then AList.update (frm, inp) (dest, outp) ext else ext) path"

definition lookup_transition :: "extra \<Rightarrow> node \<Rightarrow> string \<Rightarrow> (node \<times> char) option" where
  "lookup_transition et state inp =
    (case defined_lookup state inp of
       Some r \<Rightarrow> Some r
     | None \<Rightarrow> map_of et (state, inp))"

fun replay :: "extra \<Rightarrow> node \<Rightarrow> transition list \<Rightarrow> char list option" where
  "replay et state [] = Some []"
| "replay et state ((frm, inp, outp, dest, is_extra, is_new) # path) =
    (if frm \<noteq> state then None
     else
       case lookup_transition et state inp of
         None \<Rightarrow> None
       | Some (d, out) \<Rightarrow>
           if d \<noteq> dest then None else map_option (Cons out) (replay et d path))"

fun linked :: "node \<Rightarrow> transition list \<Rightarrow> bool" where
  "linked state [] = True"
| "linked state ((frm, inp, outp, dest, is_extra, is_new) # path) =
    (frm = state \<and> linked dest path)"

text \<open>No key of an extension set has a pre-defined transition.\<close>

definition undefined_keys :: "extra \<Rightarrow> bool" where
  "undefined_keys ext = (\<forall>((state, inp), v) \<in> set ext. defined_lookup state inp = None)"

text \<open>The number a decimal string denotes; it undoes \<open>str\<close>.\<close>

definition decimal_value :: "string \<Rightarrow> nat" where
  "decimal_value ds = foldl (\<lambda>a c. 10 * a + (of_char c - 48)) 0 ds"

section \<open>Labels of new nodes\<close>

text \<open>Distinct counters give distinct labels, and no label of a new node is the name
  of a pre-defined node.\<close>

lemma of_char_digit: "d < 10 \<Longrightarrow> of_char (digit d) = 48 + d"
  by (simp add: digit_def)

lemma decimal_value_snoc:
  "decimal_value (ds @ [c]) = 10 * decimal_value ds + (of_char c - 48)"
  by (simp add: decimal_value_def)

lemma decimal_value_str: "decimal_value (str n) = n"
proof (induction n rule: str.induct)
  case (1 n)
  show ?case
  proof (cases "n < 10")
    case True
    then show ?thesis
      by (subst str.simps) (simp add: decimal_value_def of_char_digit)
  next
    case False
    with "1" have "decimal_value (str (n div 10)) = n div 10" by simp
    with False show ?thesis
      by (subst str.simps) (simp add: decimal_value_snoc of_char_digit)
  qed
qed

lemma new_label_inj: "new_label m = new_label n \<Longrightarrow> m = n"
proof -
  assume "new_label m = new_label n"
  then have "str m = str n" by (simp add: new_label_def)
  then have "decimal_value (str m) = decimal_value (str n)" by simp
  then show "m = n" by (simp add: decimal_value_str)
qed

lemma defined_lookup_new_label: "defined_lookup (new_label k) inp = None"
  by (simp add: defined_lookup_def DEFINED_TRANSITIONS_def new_label_def)

lemma new_label_not_initial: "new_label k \<notin> set INITIAL_NODES"
  by (simp add: INITIAL_NODES_def DEFINED_TRANSITIONS_def new_label_def)

lemma defined_lookup_S1: "inp \<noteq> ''01'' \<Longrightarrow> defined_lookup ''S1'' inp = None"
  by (simp add: defined_lookup_def DEFINED_TRANSITIONS_def)

lemma defined_lookup_S2: "defined_lookup ''S2'' ''01'' = None"
  by (simp add: defined_lookup_def DEFINED_TRANSITIONS_def)

lemma traversal_set: "traversal trav \<Longrightarrow> set (trav xs) = set xs"
  by (metis traversal_def set_mset_mset)

lemma set_available_nodes:
  "set (available_nodes ext) = set INITIAL_NODES \<union> (\<lambda>(_, (d, _)). d) ` set ext"
  by (simp add: available_nodes_def)

section \<open>One step of the search\<close>

lemma take_move_tuple:
  "take_move call (k, t, et, cnt) = (\<lambda>best. try_branch best k t (call (k, t, et, cnt)))"
  by (rule ext) (simp add: take_move_def)

lemma fold_take_move_map:
  "fold (take_move call) (map g xs) b = fold (\<lambda>x. take_move call (g x)) xs b"
  by (simp add: fold_map comp_def)

lemma dfs_unfold:
  assumes "i < length steps"
  shows "dfs steps trav i current_node extra_transitions new_node_count =
    fold (take_move (callee steps trav i))
      (moves trav (steps ! i) current_node extra_transitions new_node_count) (Inr None)"
proof -
  obtain inp req_out where st: "steps ! i = (inp, req_out)"
    by (cases "steps ! i")
  show ?thesis
    using assms
    apply (subst dfs.simps)
    apply (simp add: st moves_def Let_def take_move_tuple callee_def destination_def
        fold_map comp_def split: option.splits prod.splits)
    done
qed

lemma moves_cases:
  assumes "(k, t, et, cnt') \<in> set (moves trav (inp, req_out) cur ext cnt)"
  shows
    "(\<exists>dest. (defined_lookup cur inp = Some (dest, req_out) \<or> map_of ext (cur, inp) = Some (dest, req_out))
        \<and> k = 0 \<and> t = (cur, inp, req_out, dest, False, False) \<and> et = ext \<and> cnt' = cnt)
     \<or> (\<exists>dest. defined_lookup cur inp = None \<and> map_of ext (cur, inp) = None
        \<and> dest \<in> set (trav (available_nodes ext))
        \<and> k = 1 \<and> t = (cur, inp, req_out, dest, True, False)
        \<and> et = AList.update (cur, inp) (dest, req_out) ext \<and> cnt' = cnt)
     \<or> (defined_lookup cur inp = None \<and> map_of ext (cur, inp) = None
        \<and> k = 2 \<and> t = (cur, inp, req_out, new_label (cnt + 1), True, True)
        \<and> et = AList.update (cur, inp) (new_label (cnt + 1), req_out) ext \<and> cnt' = cnt + 1)"
proof (cases "defined_lookup cur inp = None \<and> map_of ext (cur, inp) = None")
  case True
  with assms show ?thesis
    by (auto simp: moves_def)
next
  case False
  with assms show ?thesis
    by (auto simp: moves_def split: option.splits if_splits)
qed

lemma try_branch_origin:
  "try_branch (Inr b) k t res = Inr (Some r) \<Longrightarrow>
   b = Some r \<or> (\<exists>c p e n. res = Inr (Some (c, p, e, n)) \<and> r = (k + c, t # p, e, n))"
  by (auto simp: try_branch_def improve_def split: sum.splits option.splits if_splits)

lemma try_branch_keeps:
  assumes "res = Inr x"
  shows "\<exists>r1. try_branch (Inr (Some r0)) k t res = Inr (Some r1) \<and> fst r1 \<le> fst r0"
proof (cases x)
  case None
  with assms show ?thesis by (simp add: try_branch_def)
next
  case (Some y)
  obtain c p e n where "y = (c, p, e, n)" by (cases y)
  with Some assms show ?thesis by (cases r0) (auto simp: try_branch_def improve_def)
qed

lemma try_branch_candidate:
  assumes "res = Inr (Some (c, p, e, n))"
  shows "\<exists>r1. try_branch (Inr b) k t res = Inr (Some r1) \<and> fst r1 \<le> k + c"
proof (cases b)
  case None
  with assms show ?thesis by (simp add: try_branch_def improve_def)
next
  case (Some r0)
  with assms show ?thesis by (cases r0) (auto simp: try_branch_def improve_def)
qed

lemma moves_defined:
  "defined_lookup cur inp = Some (dest, req_out) \<Longrightarrow>
   (0, (cur, inp, req_out, dest, False, False), ext, cnt) \<in> set (moves trav (inp, req_out) cur ext cnt)"
  by (simp add: moves_def)

lemma moves_stored:
  "map_of ext (cur, inp) = Some (dest, req_out) \<Longrightarrow>
   (0, (cur, inp, req_out, dest, False, False), ext, cnt) \<in> set (moves trav (inp, req_out) cur ext cnt)"
  by (simp add: moves_def)

lemma moves_existing:
  "defined_lookup cur inp = None \<Longrightarrow> map_of ext (cur, inp) = None \<Longrightarrow>
   dest \<in> set (trav (available_nodes ext)) \<Longrightarrow>
   (1, (cur, inp, req_out, dest, True, False), AList.update (cur, inp) (dest, req_out) ext, cnt)
     \<in> set (moves trav (inp, req_out) cur ext cnt)"
  by (simp add: moves_def)

lemma moves_fresh:
  "defined_lookup cur inp = None \<Longrightarrow> map_of ext (cur, inp) = None \<Longrightarrow>
   (2, (cur, inp, req_out, new_label (cnt + 1), True, True),
      AList.update (cur, inp) (new_label (cnt + 1), req_out) ext, cnt + 1)
     \<in> set (moves trav (inp, req_out) cur ext cnt)"
  by (simp add: moves_def)

lemma try_branch_Inr:
  "res = Inr r \<Longrightarrow> \<exists>b'. try_branch (Inr b) k t res = Inr b'"
  by (auto simp: try_branch_def split: option.splits)

lemma take_move_eq:
  "take_move call m best = try_branch best (fst m) (fst (snd m)) (call m)"
  by (cases m) (simp add: take_move_def)

lemma fold_take_move_Inl: "fold (take_move call) ms (Inl e) = Inl e"
  by (induction ms) (simp_all add: take_move_eq try_branch_def)

lemma fold_take_move_Inr:
  "(\<And>m. m \<in> set ms \<Longrightarrow> \<exists>r. call m = Inr r) \<Longrightarrow>
   \<exists>b'. fold (take_move call) ms (Inr b) = Inr b'"
proof (induction ms arbitrary: b)
  case Nil
  then show ?case by simp
next
  case (Cons m ms)
  from Cons.prems obtain r where "call m = Inr r" by (meson list.set_intros(1))
  then obtain b1 where "take_move call m (Inr b) = Inr b1"
    using try_branch_Inr [of "call m" r b "fst m" "fst (snd m)"] unfolding take_move_eq by blast
  moreover have "\<exists>b'. fold (take_move call) ms (Inr b1) = Inr b'"
    using Cons.IH [of b1] Cons.prems by (meson list.set_intros(2))
  ultimately show ?case by simp
qed

lemma fold_take_move_origin:
  "fold (take_move call) ms (Inr b) = Inr (Some r) \<Longrightarrow>
   b = Some r \<or>
   (\<exists>m \<in> set ms. \<exists>c p e n.
      call m = Inr (Some (c, p, e, n)) \<and> r = (fst m + c, fst (snd m) # p, e, n))"
proof (induction ms arbitrary: b)
  case Nil
  then show ?case by simp
next
  case (Cons m ms)
  from Cons.prems have f: "fold (take_move call) ms (take_move call m (Inr b)) = Inr (Some r)"
    by simp
  show ?case
  proof (cases "take_move call m (Inr b)")
    case (Inl e)
    with f show ?thesis by (simp add: fold_take_move_Inl)
  next
    case (Inr b1)
    with f Cons.IH [of b1] have
      "b1 = Some r \<or> (\<exists>m \<in> set ms. \<exists>c p e n.
        call m = Inr (Some (c, p, e, n)) \<and> r = (fst m + c, fst (snd m) # p, e, n))"
      by simp
    then show ?thesis
    proof
      assume "b1 = Some r"
      with Inr have "try_branch (Inr b) (fst m) (fst (snd m)) (call m) = Inr (Some r)"
        by (simp add: take_move_eq)
      from try_branch_origin [OF this] show ?thesis
      proof
        assume "b = Some r"
        then show ?thesis by (rule disjI1)
      next
        assume *: "\<exists>c p e n. call m = Inr (Some (c, p, e, n))
          \<and> r = (fst m + c, fst (snd m) # p, e, n)"
        have "\<exists>m' \<in> set (m # ms). \<exists>c p e n. call m' = Inr (Some (c, p, e, n))
          \<and> r = (fst m' + c, fst (snd m') # p, e, n)"
          by (rule bexI [of _ m]) (rule *, simp)
        then show ?thesis by (rule disjI2)
      qed
    next
      assume "\<exists>m \<in> set ms. \<exists>c p e n.
        call m = Inr (Some (c, p, e, n)) \<and> r = (fst m + c, fst (snd m) # p, e, n)"
      then obtain m' where "m' \<in> set ms" "\<exists>c p e n.
        call m' = Inr (Some (c, p, e, n)) \<and> r = (fst m' + c, fst (snd m') # p, e, n)"
        by (rule bexE)
      then have "\<exists>m' \<in> set (m # ms). \<exists>c p e n. call m' = Inr (Some (c, p, e, n))
          \<and> r = (fst m' + c, fst (snd m') # p, e, n)"
        by (intro bexI [of _ m']) simp_all
      then show ?thesis by (rule disjI2)
    qed
  qed
qed

lemma fold_take_move_keeps:
  "(\<And>m. m \<in> set ms \<Longrightarrow> \<exists>r. call m = Inr r) \<Longrightarrow>
   \<exists>r. fold (take_move call) ms (Inr (Some r0)) = Inr (Some r) \<and> fst r \<le> fst r0"
proof (induction ms arbitrary: r0)
  case Nil
  then show ?case by simp
next
  case (Cons m ms)
  from Cons.prems obtain x where "call m = Inr x" by (meson list.set_intros(1))
  then obtain r1 where r1: "take_move call m (Inr (Some r0)) = Inr (Some r1)" "fst r1 \<le> fst r0"
    using try_branch_keeps [of "call m" x r0] unfolding take_move_eq by blast
  have "\<exists>r. fold (take_move call) ms (Inr (Some r1)) = Inr (Some r) \<and> fst r \<le> fst r1"
    using Cons.IH [of r1] Cons.prems by (meson list.set_intros(2))
  then obtain r where
    "fold (take_move call) ms (Inr (Some r1)) = Inr (Some r)" "fst r \<le> fst r1"
    by blast
  with r1 have "fold (take_move call) (m # ms) (Inr (Some r0)) = Inr (Some r) \<and> fst r \<le> fst r0"
    by simp
  then show ?case by blast
qed

lemma fold_take_move_least:
  assumes "\<And>m. m \<in> set ms \<Longrightarrow> \<exists>r. call m = Inr r"
    and "m0 \<in> set ms"
    and "call m0 = Inr (Some (c, p, e, n))"
  shows "\<exists>r. fold (take_move call) ms (Inr b) = Inr (Some r) \<and> fst r \<le> fst m0 + c"
  using assms
proof (induction ms arbitrary: b)
  case Nil
  then show ?case by simp
next
  case (Cons m ms)
  have rest: "\<And>m'. m' \<in> set ms \<Longrightarrow> \<exists>r. call m' = Inr r"
    using Cons.prems(1) by (meson list.set_intros(2))
  show ?case
  proof (cases "m = m0")
    case True
    obtain r1 where
      r1: "take_move call m (Inr b) = Inr (Some r1)" "fst r1 \<le> fst m0 + c"
      using try_branch_candidate [OF Cons.prems(3), of b "fst m0" "fst (snd m0)"]
      unfolding take_move_eq True by blast
    from fold_take_move_keeps [of ms call r1] rest obtain r where
      "fold (take_move call) ms (Inr (Some r1)) = Inr (Some r)" "fst r \<le> fst r1"
      by blast
    with r1 have "fold (take_move call) (m # ms) (Inr b) = Inr (Some r) \<and> fst r \<le> fst m0 + c"
      by simp
    then show ?thesis by blast
  next
    case False
    with Cons.prems(2) have mem: "m0 \<in> set ms" by simp
    from Cons.prems(1) obtain x where "call m = Inr x" by (meson list.set_intros(1))
    then obtain b1 where "take_move call m (Inr b) = Inr b1"
      using try_branch_Inr [of "call m" x b "fst m" "fst (snd m)"] unfolding take_move_eq by blast
    with Cons.IH [of b1, OF rest mem Cons.prems(3)] show ?thesis by simp
  qed
qed

lemma dfs_returns:
  "i \<le> length steps \<Longrightarrow> \<exists>r. dfs steps trav i cur ext cnt = Inr r"
proof (induction "length steps - i" arbitrary: i cur ext cnt)
  case 0
  then show ?case by (subst dfs.simps) simp
next
  case (Suc d)
  then have lt: "i < length steps" by simp
  have "\<And>m. m \<in> set (moves trav (steps ! i) cur ext cnt) \<Longrightarrow> \<exists>r. callee steps trav i m = Inr r"
  proof -
    fix m :: move
    obtain k t et cnt' where m: "m = (k, t, et, cnt')" by (cases m)
    from Suc(1) [of "i + 1" "destination t" et cnt'] Suc(2) lt
    show "\<exists>r. callee steps trav i m = Inr r"
      by (simp add: m callee_def)
  qed
  then show ?case
    using fold_take_move_Inr [of "moves trav (steps ! i) cur ext cnt" "callee steps trav i" None]
    by (simp add: dfs_unfold [OF lt])
qed

section \<open>The search returns a cheapest legal completion\<close>

lemma completion_cost_Cons:
  "completion_cost ((frm, inp, outp, dest, added, synthesized) # path) =
     (if added then 1 else 0) + (if synthesized then 1 else 0) + completion_cost path"
  by (simp add: completion_cost_def)

lemma extra_destination_iff:
  "dest \<in> (\<lambda>(_, (d, _)). d) ` set ext \<longleftrightarrow> (\<exists>key out. (key, (dest, out)) \<in> set ext)"
  by force

lemma moves_step:
  assumes "(k, t, et, cnt') \<in> set (moves trav (inp, req_out) cur ext cnt)"
    and "traversal trav"
    and "legal_completion rest (destination t) et cnt' p'"
  shows "legal_completion ((inp, req_out) # rest) cur ext cnt (t # p')
    \<and> completion_cost (t # p') = k + completion_cost p'
    \<and> final_extra ext (t # p') = final_extra et p'
    \<and> cnt + length (filter is_synthesized (t # p')) = cnt' + length (filter is_synthesized p')"
  using moves_cases [OF assms(1)] assms(3)
  by (auto simp: destination_def completion_cost_Cons traversal_set [OF assms(2)]
      set_available_nodes extra_destination_iff)

lemma dfs_sound:
  assumes trav: "traversal trav"
  shows "i \<le> length steps \<Longrightarrow> dfs steps trav i cur ext cnt = Inr (Some (c, p, e, n)) \<Longrightarrow>
    legal_completion (drop i steps) cur ext cnt p \<and> c = completion_cost p
    \<and> e = final_extra ext p \<and> n = cnt + length (filter is_synthesized p)"
proof (induction "length steps - i" arbitrary: i cur ext cnt c p e n)
  case 0
  then have "i = length steps" by simp
  with "0.prems"(2) show ?case
    by (subst (asm) dfs.simps) (simp add: completion_cost_def)
next
  case (Suc d)
  then have lt: "i < length steps" by simp
  obtain inp req_out where st: "steps ! i = (inp, req_out)" by (cases "steps ! i")
  have dr: "drop i steps = (inp, req_out) # drop (Suc i) steps"
    using lt st by (simp add: Cons_nth_drop_Suc [symmetric])
  from Suc.prems(2) have
    "fold (take_move (callee steps trav i)) (moves trav (inp, req_out) cur ext cnt) (Inr None)
       = Inr (Some (c, p, e, n))"
    by (simp add: dfs_unfold [OF lt] st)
  from fold_take_move_origin [OF this] obtain m c' p' e' n' where
    m: "m \<in> set (moves trav (inp, req_out) cur ext cnt)"
    and call: "callee steps trav i m = Inr (Some (c', p', e', n'))"
    and res: "(c, p, e, n) = (fst m + c', fst (snd m) # p', e', n')"
    by blast
  obtain k t et cnt' where mm: "m = (k, t, et, cnt')" by (cases m)
  from call have sub: "dfs steps trav (Suc i) (destination t) et cnt' = Inr (Some (c', p', e', n'))"
    by (simp add: mm callee_def)
  have ih: "legal_completion (drop (Suc i) steps) (destination t) et cnt' p' \<and> c' = completion_cost p'
    \<and> e' = final_extra et p' \<and> n' = cnt' + length (filter is_synthesized p')"
    using Suc.hyps(1) [of "Suc i" "destination t" et cnt' c' p' e' n'] Suc.hyps(2) lt sub
    by simp
  from res have r: "c = k + c'" "p = t # p'" "e = e'" "n = n'"
    by (simp_all add: mm)
  have "legal_completion ((inp, req_out) # drop (Suc i) steps) cur ext cnt (t # p')
    \<and> completion_cost (t # p') = k + completion_cost p'
    \<and> final_extra ext (t # p') = final_extra et p'
    \<and> cnt + length (filter is_synthesized (t # p')) = cnt' + length (filter is_synthesized p')"
    using moves_step [OF m [unfolded mm] trav] ih by blast
  with ih r show ?case
    by (simp add: dr del: filter.simps)
qed

lemma dfs_least:
  assumes trav: "traversal trav"
  shows "i \<le> length steps \<Longrightarrow> legal_completion (drop i steps) cur ext cnt p \<Longrightarrow>
    \<exists>r. dfs steps trav i cur ext cnt = Inr (Some r) \<and> fst r \<le> completion_cost p"
proof (induction "length steps - i" arbitrary: i cur ext cnt p)
  case 0
  then have "i = length steps" by simp
  then show ?case
    by (subst dfs.simps) simp
next
  case (Suc d)
  then have lt: "i < length steps" by simp
  obtain inp req_out where st: "steps ! i = (inp, req_out)" by (cases "steps ! i")
  have dr: "drop i steps = (inp, req_out) # drop (Suc i) steps"
    using lt st by (simp add: Cons_nth_drop_Suc [symmetric])
  let ?ms = "moves trav (inp, req_out) cur ext cnt"
  have ret: "\<And>m. m \<in> set ?ms \<Longrightarrow> \<exists>r. callee steps trav i m = Inr r"
  proof -
    fix m :: move
    obtain k t et cnt' where m: "m = (k, t, et, cnt')" by (cases m)
    from dfs_returns [of "i + 1" steps trav "destination t" et cnt'] lt
    show "\<exists>r. callee steps trav i m = Inr r"
      by (simp add: m callee_def)
  qed
  from Suc.prems(2) obtain t p' where p: "p = t # p'"
    by (cases p) (simp_all add: dr)
  obtain frm inp' outp dest added synthesized where
    t: "t = (frm, inp', outp, dest, added, synthesized)" by (cases t)
  from Suc.prems(2) have eqs: "frm = cur" "inp' = inp" "outp = req_out"
    by (simp_all add: dr p t)
  have "\<exists>k et cnt'. (k, t, et, cnt') \<in> set ?ms \<and> legal_completion (drop (Suc i) steps) dest et cnt' p'
    \<and> completion_cost p = k + completion_cost p'"
  proof (cases added)
    case False
    with Suc.prems(2) have
      "defined_lookup cur inp = Some (dest, req_out) \<or> map_of ext (cur, inp) = Some (dest, req_out)"
      "\<not> synthesized" "legal_completion (drop (Suc i) steps) dest ext cnt p'"
      by (simp_all add: dr p t)
    with False eqs moves_defined [of cur inp dest req_out ext cnt trav]
      moves_stored [of ext cur inp dest req_out cnt trav]
    have "(0, t, ext, cnt) \<in> set ?ms \<and> legal_completion (drop (Suc i) steps) dest ext cnt p'
      \<and> completion_cost p = 0 + completion_cost p'"
      by (auto simp: t p completion_cost_Cons)
    then show ?thesis by blast
  next
    case True
    note added = this
    with Suc.prems(2) have un: "defined_lookup cur inp = None" "map_of ext (cur, inp) = None"
      by (simp_all add: dr p t)
    show ?thesis
    proof (cases synthesized)
      case True
      with added Suc.prems(2) have d: "dest = new_label (cnt + 1)"
        by (simp add: dr p t)
      from True added Suc.prems(2)
      have c: "legal_completion (drop (Suc i) steps) dest (AList.update (cur, inp) (dest, req_out) ext) (cnt + 1) p'"
        by (auto simp: dr p t)
      have "(2, t, AList.update (cur, inp) (dest, req_out) ext, cnt + 1) \<in> set ?ms"
        using moves_fresh [OF un, of req_out cnt trav] by (simp add: t d eqs added True)
      moreover have "completion_cost p = 2 + completion_cost p'"
        by (simp add: t p completion_cost_Cons added True)
      ultimately show ?thesis using c by blast
    next
      case False
      with added Suc.prems(2) have "dest \<in> set INITIAL_NODES \<union> (\<lambda>(_, (d, _)). d) ` set ext"
        "legal_completion (drop (Suc i) steps) dest (AList.update (cur, inp) (dest, req_out) ext) cnt p'"
        by (simp_all add: dr p t)
      then have "dest \<in> set (trav (available_nodes ext))"
        "legal_completion (drop (Suc i) steps) dest (AList.update (cur, inp) (dest, req_out) ext) cnt p'"
        by (simp_all add: traversal_set [OF trav] set_available_nodes)
      with False added eqs un moves_existing [of cur inp ext dest trav req_out cnt]
      have "(1, t, AList.update (cur, inp) (dest, req_out) ext, cnt) \<in> set ?ms
        \<and> legal_completion (drop (Suc i) steps) dest (AList.update (cur, inp) (dest, req_out) ext) cnt p'
        \<and> completion_cost p = 1 + completion_cost p'"
        by (auto simp: t p completion_cost_Cons)
      then show ?thesis by blast
    qed
  qed
  then obtain k et cnt' where mem: "(k, t, et, cnt') \<in> set ?ms"
    and sub: "legal_completion (drop (Suc i) steps) dest et cnt' p'"
    and cost: "completion_cost p = k + completion_cost p'"
    by blast
  have "\<exists>r. dfs steps trav (Suc i) dest et cnt' = Inr (Some r) \<and> fst r \<le> completion_cost p'"
    using Suc.hyps(1) [of "Suc i" dest et cnt' p'] Suc.hyps(2) lt sub by simp
  then obtain r' where
    r': "dfs steps trav (Suc i) dest et cnt' = Inr (Some r')" "fst r' \<le> completion_cost p'"
    by blast
  obtain c1 p1 e1 n1 where r1: "r' = (c1, p1, e1, n1)" by (cases r')
  have "callee steps trav i (k, t, et, cnt') = Inr (Some (c1, p1, e1, n1))"
    using r' by (simp add: callee_def t destination_def r1)
  from fold_take_move_least [of ?ms "callee steps trav i" "(k, t, et, cnt')" c1 p1 e1 n1 None,
      OF ret mem this] obtain r where
    "fold (take_move (callee steps trav i)) ?ms (Inr None) = Inr (Some r)" "fst r \<le> k + c1"
    unfolding fst_conv by blast
  with r' cost have "dfs steps trav i cur ext cnt = Inr (Some r) \<and> fst r \<le> completion_cost p"
    by (simp add: dfs_unfold [OF lt] st r1)
  then show ?case by blast
qed

section \<open>Properties of legal completions\<close>

lemma completion_ConsD:
  assumes "legal_completion (st # rest) state ext cnt p"
  shows "\<exists>dest added synthesized path.
    p = (state, fst st, snd st, dest, added, synthesized) # path
    \<and> legal_completion rest dest
        (if added then AList.update (state, fst st) (dest, snd st) ext else ext)
        (if synthesized then cnt + 1 else cnt) path
    \<and> (added \<longrightarrow> defined_lookup state (fst st) = None \<and> map_of ext (state, fst st) = None)
    \<and> (\<not> added \<longrightarrow> \<not> synthesized \<and>
          (defined_lookup state (fst st) = Some (dest, snd st)
           \<or> map_of ext (state, fst st) = Some (dest, snd st)))"
proof -
  obtain input required where st: "st = (input, required)" by (cases st)
  from assms obtain t path where p: "p = t # path"
    by (cases p) (simp_all add: st)
  obtain frm inp outp dest added synthesized where
    t: "t = (frm, inp, outp, dest, added, synthesized)" by (cases t)
  from assms show ?thesis
    unfolding st p t by (auto split: if_splits)
qed

lemma completion_length:
  "legal_completion steps cur ext cnt p \<Longrightarrow> length p = length steps"
proof (induction steps arbitrary: cur ext cnt p)
  case Nil
  then show ?case by simp
next
  case (Cons st rest)
  from completion_ConsD [OF Cons.prems] Cons.IH show ?case by auto
qed

lemma completion_linked:
  "legal_completion steps cur ext cnt p \<Longrightarrow> linked cur p"
proof (induction steps arbitrary: cur ext cnt p)
  case Nil
  then show ?case by simp
next
  case (Cons st rest)
  from completion_ConsD [OF Cons.prems] Cons.IH show ?case by auto
qed

lemma map_le_update:
  "map_of ext key = None \<Longrightarrow> map_of ext \<subseteq>\<^sub>m map_of (AList.update key v ext)"
  by (auto simp: update_conv' map_le_def)

lemma final_extra_mono:
  "legal_completion steps cur ext cnt p \<Longrightarrow> map_of ext \<subseteq>\<^sub>m map_of (final_extra ext p)"
proof (induction steps arbitrary: cur ext cnt p)
  case Nil
  then show ?case by simp
next
  case (Cons st rest)
  from completion_ConsD [OF Cons.prems] obtain dest added synthesized path where
    p: "p = (cur, fst st, snd st, dest, added, synthesized) # path"
    and c: "legal_completion rest dest
        (if added then AList.update (cur, fst st) (dest, snd st) ext else ext)
        (if synthesized then cnt + 1 else cnt) path"
    and a: "added \<longrightarrow> defined_lookup cur (fst st) = None \<and> map_of ext (cur, fst st) = None"
    by blast
  let ?ext = "if added then AList.update (cur, fst st) (dest, snd st) ext else ext"
  have "map_of ext \<subseteq>\<^sub>m map_of ?ext"
    using a by (simp add: map_le_update)
  also have "map_of ?ext \<subseteq>\<^sub>m map_of (final_extra ?ext path)"
    by (rule Cons.IH [OF c])
  finally show ?case by (simp add: p)
qed

lemma set_update_subset:
  "(k, w) \<in> set (AList.update key v ext) \<Longrightarrow> (k, w) = (key, v) \<or> (k, w) \<in> set ext"
  by (induction ext) (auto split: if_splits)

lemma undefined_keys_update:
  assumes "undefined_keys ext" and "defined_lookup state inp = None"
  shows "undefined_keys (AList.update (state, inp) v ext)"
  unfolding undefined_keys_def
proof (intro ballI)
  fix x
  assume x: "x \<in> set (AList.update (state, inp) v ext)"
  obtain s i w where xe: "x = ((s, i), w)" by (cases x) auto
  from set_update_subset [of "(s, i)" w "(state, inp)" v ext] x
  have "(s, i) = (state, inp) \<or> ((s, i), w) \<in> set ext" by (auto simp: xe)
  with assms show "case x of (a, b) \<Rightarrow> (case a of (state, inp) \<Rightarrow> \<lambda>v. defined_lookup state inp = None) b"
    by (auto simp: xe undefined_keys_def)
qed

lemma final_extra_undefined:
  "legal_completion steps cur ext cnt p \<Longrightarrow> undefined_keys ext \<Longrightarrow> undefined_keys (final_extra ext p)"
proof (induction steps arbitrary: cur ext cnt p)
  case Nil
  then show ?case by simp
next
  case (Cons st rest)
  from completion_ConsD [OF Cons.prems(1)] obtain dest added synthesized path where
    p: "p = (cur, fst st, snd st, dest, added, synthesized) # path"
    and c: "legal_completion rest dest
        (if added then AList.update (cur, fst st) (dest, snd st) ext else ext)
        (if synthesized then cnt + 1 else cnt) path"
    and a: "added \<longrightarrow> defined_lookup cur (fst st) = None \<and> map_of ext (cur, fst st) = None"
    by blast
  let ?ext = "if added then AList.update (cur, fst st) (dest, snd st) ext else ext"
  have "undefined_keys ?ext"
    using a Cons.prems(2) by (simp add: undefined_keys_update)
  from Cons.IH [OF c this] show ?case by (simp add: p)
qed

lemma undefined_keys_lookup:
  "undefined_keys et \<Longrightarrow> map_of et (state, inp) = Some v \<Longrightarrow> defined_lookup state inp = None"
  by (auto simp: undefined_keys_def dest!: map_of_SomeD)

lemma map_le_SomeD: "m \<subseteq>\<^sub>m m' \<Longrightarrow> m k = Some v \<Longrightarrow> m' k = Some v"
  by (auto simp: map_le_def dom_def)

lemma completion_replay:
  "legal_completion steps cur ext cnt p \<Longrightarrow> map_of (final_extra ext p) \<subseteq>\<^sub>m map_of et \<Longrightarrow>
   undefined_keys et \<Longrightarrow>
   replay et cur p = Some (map snd steps) \<and> map (\<lambda>(frm, inp, rest). inp) p = map fst steps"
proof (induction steps arbitrary: cur ext cnt p)
  case Nil
  then show ?case by simp
next
  case (Cons st rest)
  from completion_ConsD [OF Cons.prems(1)] obtain dest added synthesized path where
    p: "p = (cur, fst st, snd st, dest, added, synthesized) # path"
    and c: "legal_completion rest dest
        (if added then AList.update (cur, fst st) (dest, snd st) ext else ext)
        (if synthesized then cnt + 1 else cnt) path"
    and a: "added \<longrightarrow> defined_lookup cur (fst st) = None \<and> map_of ext (cur, fst st) = None"
    and na: "\<not> added \<longrightarrow> \<not> synthesized \<and>
          (defined_lookup cur (fst st) = Some (dest, snd st)
           \<or> map_of ext (cur, fst st) = Some (dest, snd st))"
    by blast
  let ?ext = "if added then AList.update (cur, fst st) (dest, snd st) ext else ext"
  from Cons.prems(2) have le: "map_of (final_extra ?ext path) \<subseteq>\<^sub>m map_of et"
    by (simp add: p)
  from Cons.IH [OF c le Cons.prems(3)]
  have ih: "replay et dest path = Some (map snd rest)"
    "map (\<lambda>(frm, inp, rest). inp) path = map fst rest" by simp_all
  have sub: "map_of ?ext \<subseteq>\<^sub>m map_of et"
    using final_extra_mono [OF c] le by (rule map_le_trans)
  have "lookup_transition et cur (fst st) = Some (dest, snd st)"
  proof (cases "defined_lookup cur (fst st)")
    case None
    have "map_of ?ext (cur, fst st) = Some (dest, snd st)"
      using na None by (cases added) (simp_all add: update_conv')
    from map_le_SomeD [OF sub this] None show ?thesis
      by (simp add: lookup_transition_def)
  next
    case (Some r)
    with a have nadd: "\<not> added" by auto
    have "map_of ext (cur, fst st) \<noteq> Some (dest, snd st)"
    proof
      assume "map_of ext (cur, fst st) = Some (dest, snd st)"
      with sub nadd have "map_of et (cur, fst st) = Some (dest, snd st)"
        by (auto dest: map_le_SomeD)
      from undefined_keys_lookup [OF Cons.prems(3) this] Some show False by simp
    qed
    with na nadd Some show ?thesis
      by (simp add: lookup_transition_def)
  qed
  with ih show ?case by (simp add: p)
qed

section \<open>A legal completion always exists\<close>

text \<open>A node that was just created has no transition at all, so a further new node can
  always follow it. For the first step some pre-defined node lacks a transition on the
  input: \<^verbatim>\<open>S2\<close> for \<^verbatim>\<open>01\<close>, \<^verbatim>\<open>S1\<close> for every other input.\<close>

lemma completion_from_new_node:
  "\<forall>state inp v. ((state, inp), v) \<in> set ext \<longrightarrow>
      state \<in> set INITIAL_NODES \<or> (\<exists>j<cnt. state = new_label j) \<Longrightarrow>
   \<exists>p. legal_completion steps (new_label cnt) ext cnt p"
proof (induction steps arbitrary: ext cnt)
  case Nil
  then show ?case by simp
next
  case (Cons st rest)
  obtain inp req_out where st: "st = (inp, req_out)" by (cases st)
  let ?ext = "AList.update (new_label cnt, inp) (new_label (cnt + 1), req_out) ext"
  have un: "map_of ext (new_label cnt, inp) = None"
  proof (cases "map_of ext (new_label cnt, inp)")
    case (Some v)
    then have "((new_label cnt, inp), v) \<in> set ext" by (rule map_of_SomeD)
    with Cons.prems have
      "new_label cnt \<in> set INITIAL_NODES \<or> (\<exists>j<cnt. new_label cnt = new_label j)"
      by blast
    then have False
      using new_label_not_initial [of cnt] by (auto dest!: new_label_inj)
    then show ?thesis ..
  qed simp
  have "\<forall>state i v. ((state, i), v) \<in> set ?ext \<longrightarrow>
      state \<in> set INITIAL_NODES \<or> (\<exists>j<cnt + 1. state = new_label j)"
  proof (intro allI impI)
    fix state i v
    assume "((state, i), v) \<in> set ?ext"
    from set_update_subset [OF this]
    have "state = new_label cnt \<or> ((state, i), v) \<in> set ext" by auto
    then show "state \<in> set INITIAL_NODES \<or> (\<exists>j<cnt + 1. state = new_label j)"
    proof
      assume "state = new_label cnt"
      then show ?thesis by auto
    next
      assume "((state, i), v) \<in> set ext"
      with Cons.prems have "state \<in> set INITIAL_NODES \<or> (\<exists>j<cnt. state = new_label j)"
        by blast
      then show ?thesis by (auto intro: less_SucI)
    qed
  qed
  from Cons.IH [of ?ext "cnt + 1", OF this] obtain p where
    "legal_completion rest (new_label (cnt + 1)) ?ext (cnt + 1) p" by blast
  with un have "legal_completion (st # rest) (new_label cnt) ext cnt
    ((new_label cnt, inp, req_out, new_label (cnt + 1), True, True) # p)"
    by (simp add: st defined_lookup_new_label)
  then show ?case by blast
qed

lemma completion_exists:
  "\<exists>start \<in> set INITIAL_NODES. \<exists>p. legal_completion steps start [] 0 p"
proof (cases steps)
  case Nil
  have "''S0'' \<in> set INITIAL_NODES"
    by (simp add: INITIAL_NODES_def DEFINED_TRANSITIONS_def)
  moreover have "legal_completion steps ''S0'' [] 0 []"
    by (simp add: Nil)
  ultimately show ?thesis by blast
next
  case (Cons st rest)
  obtain inp req_out where st: "st = (inp, req_out)" by (cases st)
  define start where "start = (if inp = ''01'' then ''S2'' else ''S1'')"
  have un: "defined_lookup start inp = None"
    by (simp add: start_def defined_lookup_S1 defined_lookup_S2)
  have ini: "start \<in> set INITIAL_NODES"
    by (simp add: start_def INITIAL_NODES_def DEFINED_TRANSITIONS_def)
  let ?ext = "AList.update (start, inp) (new_label (0 + 1), req_out) []"
  have "\<forall>state i v. ((state, i), v) \<in> set ?ext \<longrightarrow>
      state \<in> set INITIAL_NODES \<or> (\<exists>j<0 + 1. state = new_label j)"
    using ini by simp
  from completion_from_new_node [of ?ext "0 + 1" rest, OF this] obtain p where
    "legal_completion rest (new_label (0 + 1)) ?ext (0 + 1) p" by blast
  with un have "legal_completion steps start [] 0
    ((start, inp, req_out, new_label (0 + 1), True, True) # p)"
    by (simp add: Cons st)
  with ini show ?thesis by blast
qed

lemma try_start_Inl: "fold (try_start steps trav) starts (Inl e) = Inl e"
  by (induction starts) (simp_all add: try_start_def)

lemma fold_try_start:
  "\<exists>bo. fold (try_start steps trav) starts (Inr None) = Inr bo \<and>
    (case bo of
       None \<Rightarrow> \<forall>s \<in> set starts. dfs steps trav 0 s [] 0 = Inr None
     | Some (res, s) \<Rightarrow>
         \<exists>ys zs. starts = ys @ s # zs \<and> dfs steps trav 0 s [] 0 = Inr (Some res)
           \<and> (\<forall>y \<in> set ys. \<forall>r. dfs steps trav 0 y [] 0 = Inr (Some r) \<longrightarrow> fst res < fst r)
           \<and> (\<forall>z \<in> set zs. \<forall>r. dfs steps trav 0 z [] 0 = Inr (Some r) \<longrightarrow> fst res \<le> fst r))"
proof (induction starts rule: rev_induct)
  case Nil
  then show ?case by simp
next
  case (snoc x xs)
  then obtain bo where f: "fold (try_start steps trav) xs (Inr None) = Inr bo"
    and inv: "case bo of
       None \<Rightarrow> \<forall>s \<in> set xs. dfs steps trav 0 s [] 0 = Inr None
     | Some (res, s) \<Rightarrow>
         \<exists>ys zs. xs = ys @ s # zs \<and> dfs steps trav 0 s [] 0 = Inr (Some res)
           \<and> (\<forall>y \<in> set ys. \<forall>r. dfs steps trav 0 y [] 0 = Inr (Some r) \<longrightarrow> fst res < fst r)
           \<and> (\<forall>z \<in> set zs. \<forall>r. dfs steps trav 0 z [] 0 = Inr (Some r) \<longrightarrow> fst res \<le> fst r)"
    by blast
  from dfs_returns [of 0 steps trav x "[]" 0] obtain rx where
    rx: "dfs steps trav 0 x [] 0 = Inr rx" by auto
  have step: "fold (try_start steps trav) (xs @ [x]) (Inr None) = try_start steps trav x (Inr bo)"
    by (simp add: f)
  show ?case
  proof (cases rx)
    case None
    with rx have "try_start steps trav x (Inr bo) = Inr bo"
      by (simp add: try_start_def)
    moreover have "case bo of
       None \<Rightarrow> \<forall>s \<in> set (xs @ [x]). dfs steps trav 0 s [] 0 = Inr None
     | Some (res, s) \<Rightarrow>
         \<exists>ys zs. xs @ [x] = ys @ s # zs \<and> dfs steps trav 0 s [] 0 = Inr (Some res)
           \<and> (\<forall>y \<in> set ys. \<forall>r. dfs steps trav 0 y [] 0 = Inr (Some r) \<longrightarrow> fst res < fst r)
           \<and> (\<forall>z \<in> set zs. \<forall>r. dfs steps trav 0 z [] 0 = Inr (Some r) \<longrightarrow> fst res \<le> fst r)"
    proof (cases bo)
      case None
      with inv rx \<open>rx = None\<close> show ?thesis by simp
    next
      case (Some b)
      obtain res s where b: "b = (res, s)" by (cases b)
      from inv Some b obtain ys zs where
        "xs = ys @ s # zs" "dfs steps trav 0 s [] 0 = Inr (Some res)"
        "\<forall>y \<in> set ys. \<forall>r. dfs steps trav 0 y [] 0 = Inr (Some r) \<longrightarrow> fst res < fst r"
        "\<forall>z \<in> set zs. \<forall>r. dfs steps trav 0 z [] 0 = Inr (Some r) \<longrightarrow> fst res \<le> fst r"
        by auto
      with rx \<open>rx = None\<close> have
        "xs @ [x] = ys @ s # (zs @ [x]) \<and> dfs steps trav 0 s [] 0 = Inr (Some res)
           \<and> (\<forall>y \<in> set ys. \<forall>r. dfs steps trav 0 y [] 0 = Inr (Some r) \<longrightarrow> fst res < fst r)
           \<and> (\<forall>z \<in> set (zs @ [x]). \<forall>r. dfs steps trav 0 z [] 0 = Inr (Some r) \<longrightarrow> fst res \<le> fst r)"
        by simp
      then show ?thesis unfolding Some b by (simp only: option.case prod.case) blast
    qed
    ultimately show ?thesis unfolding step by blast
  next
    case (Some r)
    note rxs = this
    show ?thesis
    proof (cases bo)
      case None
      with rx rxs have "try_start steps trav x (Inr bo) = Inr (Some (r, x))"
        by (simp add: try_start_def)
      moreover from inv None rx rxs have
        "xs @ [x] = xs @ x # [] \<and> dfs steps trav 0 x [] 0 = Inr (Some r)
           \<and> (\<forall>y \<in> set xs. \<forall>r'. dfs steps trav 0 y [] 0 = Inr (Some r') \<longrightarrow> fst r < fst r')
           \<and> (\<forall>z \<in> set []. \<forall>r'. dfs steps trav 0 z [] 0 = Inr (Some r') \<longrightarrow> fst r \<le> fst r')"
        by simp
      then have "case Some (r, x) of
         None \<Rightarrow> \<forall>s \<in> set (xs @ [x]). dfs steps trav 0 s [] 0 = Inr None
       | Some (res, s) \<Rightarrow>
         \<exists>ys zs. xs @ [x] = ys @ s # zs \<and> dfs steps trav 0 s [] 0 = Inr (Some res)
           \<and> (\<forall>y \<in> set ys. \<forall>r. dfs steps trav 0 y [] 0 = Inr (Some r) \<longrightarrow> fst res < fst r)
           \<and> (\<forall>z \<in> set zs. \<forall>r. dfs steps trav 0 z [] 0 = Inr (Some r) \<longrightarrow> fst res \<le> fst r)"
        by (simp only: option.case prod.case) blast
      ultimately show ?thesis unfolding step by blast
    next
      case (Some b)
      obtain res s where b: "b = (res, s)" by (cases b)
      from inv Some b obtain ys zs where
        xs: "xs = ys @ s # zs" and ds: "dfs steps trav 0 s [] 0 = Inr (Some res)"
        and before: "\<forall>y \<in> set ys. \<forall>r. dfs steps trav 0 y [] 0 = Inr (Some r) \<longrightarrow> fst res < fst r"
        and after: "\<forall>z \<in> set zs. \<forall>r. dfs steps trav 0 z [] 0 = Inr (Some r) \<longrightarrow> fst res \<le> fst r"
        by auto
      show ?thesis
      proof (cases "fst r < fst res")
        case True
        with rx rxs Some b have t: "try_start steps trav x (Inr bo) = Inr (Some (r, x))"
          by (simp add: try_start_def)
        have "\<forall>y \<in> set xs. \<forall>r'. dfs steps trav 0 y [] 0 = Inr (Some r') \<longrightarrow> fst r < fst r'"
        proof (intro ballI allI impI)
          fix y r'
          assume y: "y \<in> set xs" "dfs steps trav 0 y [] 0 = Inr (Some r')"
          then consider "y \<in> set ys" | "y = s" | "y \<in> set zs" by (auto simp: xs)
          then show "fst r < fst r'"
          proof cases
            case 1
            with before y True show ?thesis by fastforce
          next
            case 2
            with ds y True show ?thesis by simp
          next
            case 3
            with after y True show ?thesis by fastforce
          qed
        qed
        with rx rxs have
          "xs @ [x] = xs @ x # [] \<and> dfs steps trav 0 x [] 0 = Inr (Some r)
           \<and> (\<forall>y \<in> set xs. \<forall>r'. dfs steps trav 0 y [] 0 = Inr (Some r') \<longrightarrow> fst r < fst r')
           \<and> (\<forall>z \<in> set []. \<forall>r'. dfs steps trav 0 z [] 0 = Inr (Some r') \<longrightarrow> fst r \<le> fst r')"
          by simp
        then have "case Some (r, x) of
           None \<Rightarrow> \<forall>s \<in> set (xs @ [x]). dfs steps trav 0 s [] 0 = Inr None
         | Some (res, s) \<Rightarrow>
           \<exists>ys zs. xs @ [x] = ys @ s # zs \<and> dfs steps trav 0 s [] 0 = Inr (Some res)
             \<and> (\<forall>y \<in> set ys. \<forall>r. dfs steps trav 0 y [] 0 = Inr (Some r) \<longrightarrow> fst res < fst r)
             \<and> (\<forall>z \<in> set zs. \<forall>r. dfs steps trav 0 z [] 0 = Inr (Some r) \<longrightarrow> fst res \<le> fst r)"
          by (simp only: option.case prod.case) blast
        with t show ?thesis unfolding step by blast
      next
        case False
        with rx rxs Some b have t: "try_start steps trav x (Inr bo) = Inr (Some (res, s))"
          by (simp add: try_start_def)
        from False rx rxs after have
          "\<forall>z \<in> set (zs @ [x]). \<forall>r. dfs steps trav 0 z [] 0 = Inr (Some r) \<longrightarrow> fst res \<le> fst r"
          by auto
        with xs ds before have
          "xs @ [x] = ys @ s # (zs @ [x]) \<and> dfs steps trav 0 s [] 0 = Inr (Some res)
           \<and> (\<forall>y \<in> set ys. \<forall>r. dfs steps trav 0 y [] 0 = Inr (Some r) \<longrightarrow> fst res < fst r)
           \<and> (\<forall>z \<in> set (zs @ [x]). \<forall>r. dfs steps trav 0 z [] 0 = Inr (Some r) \<longrightarrow> fst res \<le> fst r)"
          by simp
        then have "case Some (res, s) of
           None \<Rightarrow> \<forall>s \<in> set (xs @ [x]). dfs steps trav 0 s [] 0 = Inr None
         | Some (res, s) \<Rightarrow>
           \<exists>ys zs. xs @ [x] = ys @ s # zs \<and> dfs steps trav 0 s [] 0 = Inr (Some res)
             \<and> (\<forall>y \<in> set ys. \<forall>r. dfs steps trav 0 y [] 0 = Inr (Some r) \<longrightarrow> fst res < fst r)
             \<and> (\<forall>z \<in> set zs. \<forall>r. dfs steps trav 0 z [] 0 = Inr (Some r) \<longrightarrow> fst res \<le> fst r)"
          by (simp only: option.case prod.case) blast
        with t show ?thesis unfolding step by blast
      qed
    qed
  qed
qed

section \<open>The result of \<^verbatim>\<open>solve\<close>\<close>

lemma is_added_eq: "(\<lambda>(frm, inp, outp, dest, is_extra, is_new). is_extra) = is_added"
  by (auto simp: fun_eq_iff)

lemma length_steps_of: "length (steps_of s) = length s div 3"
  by (simp add: steps_of_def)

lemma solve_Report:
  assumes "solve trav s = Inr (Report r)"
  shows "length s mod 3 = 0 \<and>
    extra_path_count r = length (filter is_added (best_path r)) \<and>
    (\<exists>ys zs. trav INITIAL_NODES = ys @ start_node r # zs
      \<and> dfs (steps_of s) trav 0 (start_node r) [] 0 =
          Inr (Some (total_extra_cost r, best_path r, extra_transitions_used r, total_new_nodes r))
      \<and> (\<forall>y \<in> set ys. \<forall>r'. dfs (steps_of s) trav 0 y [] 0 = Inr (Some r')
            \<longrightarrow> total_extra_cost r < fst r')
      \<and> (\<forall>z \<in> set zs. \<forall>r'. dfs (steps_of s) trav 0 z [] 0 = Inr (Some r')
            \<longrightarrow> total_extra_cost r \<le> fst r'))"
proof -
  from assms have len: "length s mod 3 = 0"
    by (auto simp: solve_def split: if_splits)
  from fold_try_start [of "steps_of s" trav "trav INITIAL_NODES"] obtain bo where
    f: "fold (try_start (steps_of s) trav) (trav INITIAL_NODES) (Inr None) = Inr bo"
    and inv: "case bo of
       None \<Rightarrow> \<forall>s' \<in> set (trav INITIAL_NODES). dfs (steps_of s) trav 0 s' [] 0 = Inr None
     | Some (res, s') \<Rightarrow>
         \<exists>ys zs. trav INITIAL_NODES = ys @ s' # zs
           \<and> dfs (steps_of s) trav 0 s' [] 0 = Inr (Some res)
           \<and> (\<forall>y \<in> set ys. \<forall>r. dfs (steps_of s) trav 0 y [] 0 = Inr (Some r) \<longrightarrow> fst res < fst r)
           \<and> (\<forall>z \<in> set zs. \<forall>r. dfs (steps_of s) trav 0 z [] 0 = Inr (Some r) \<longrightarrow> fst res \<le> fst r)"
    by blast
  from assms len f obtain c p e n start where bo: "bo = Some ((c, p, e, n), start)"
    and r: "r = \<lparr>total_extra_cost = c, extra_path_count = length (filter is_added p),
      total_new_nodes = n, best_path = p, start_node = start, extra_transitions_used = e\<rparr>"
    by (auto simp: solve_def is_added_eq split: option.splits)
  from inv show ?thesis
    unfolding bo by (simp add: len r)
qed

lemma solve_completion:
  assumes "traversal trav" and "solve trav s = Inr (Report r)"
  shows "start_node r \<in> set INITIAL_NODES
    \<and> legal_completion (steps_of s) (start_node r) [] 0 (best_path r)
    \<and> total_extra_cost r = completion_cost (best_path r)
    \<and> extra_transitions_used r = final_extra [] (best_path r)
    \<and> total_new_nodes r = length (filter is_synthesized (best_path r))"
proof -
  from solve_Report [OF assms(2)] obtain ys zs where
    t: "trav INITIAL_NODES = ys @ start_node r # zs"
    and d: "dfs (steps_of s) trav 0 (start_node r) [] 0 =
          Inr (Some (total_extra_cost r, best_path r, extra_transitions_used r, total_new_nodes r))"
    by blast
  from t have "start_node r \<in> set (trav INITIAL_NODES)" by simp
  then have "start_node r \<in> set INITIAL_NODES"
    by (simp add: traversal_set [OF assms(1)])
  with dfs_sound [OF assms(1) _ d] show ?thesis by simp
qed

lemma solve_least:
  assumes "traversal trav" and "solve trav s = Inr (Report r)"
    and "start \<in> set INITIAL_NODES" and "legal_completion (steps_of s) start [] 0 p"
  shows "total_extra_cost r \<le> completion_cost p"
proof -
  from dfs_least [OF assms(1), of 0 "steps_of s" start "[]" 0 p] assms(4) obtain r' where
    r': "dfs (steps_of s) trav 0 start [] 0 = Inr (Some r')" "fst r' \<le> completion_cost p"
    by auto
  from solve_Report [OF assms(2)] obtain ys zs where
    t: "trav INITIAL_NODES = ys @ start_node r # zs"
    and d: "dfs (steps_of s) trav 0 (start_node r) [] 0 =
          Inr (Some (total_extra_cost r, best_path r, extra_transitions_used r, total_new_nodes r))"
    and before: "\<forall>y \<in> set ys. \<forall>r'. dfs (steps_of s) trav 0 y [] 0 = Inr (Some r')
            \<longrightarrow> total_extra_cost r < fst r'"
    and after: "\<forall>z \<in> set zs. \<forall>r'. dfs (steps_of s) trav 0 z [] 0 = Inr (Some r')
            \<longrightarrow> total_extra_cost r \<le> fst r'"
    by blast
  from assms(3) have "start \<in> set (trav INITIAL_NODES)"
    by (simp add: traversal_set [OF assms(1)])
  then consider "start \<in> set ys" | "start = start_node r" | "start \<in> set zs"
    by (auto simp: t)
  then have "total_extra_cost r \<le> fst r'"
  proof cases
    case 1
    with before r'(1) show ?thesis by fastforce
  next
    case 2
    with d r'(1) show ?thesis by auto
  next
    case 3
    with after r'(1) show ?thesis by fastforce
  qed
  with r'(2) show ?thesis by simp
qed

lemma solve_finds:
  assumes "traversal trav" and "length s mod 3 = 0"
  shows "\<exists>r. solve trav s = Inr (Report r)"
proof -
  from completion_exists [of "steps_of s"] obtain start p where
    st: "start \<in> set INITIAL_NODES" and c: "legal_completion (steps_of s) start [] 0 p"
    by blast
  from dfs_least [OF assms(1), of 0 "steps_of s" start "[]" 0 p] c obtain r' where
    r': "dfs (steps_of s) trav 0 start [] 0 = Inr (Some r')"
    by auto
  from st have mem: "start \<in> set (trav INITIAL_NODES)"
    by (simp add: traversal_set [OF assms(1)])
  from fold_try_start [of "steps_of s" trav "trav INITIAL_NODES"] obtain bo where
    f: "fold (try_start (steps_of s) trav) (trav INITIAL_NODES) (Inr None) = Inr bo"
    and inv: "case bo of
       None \<Rightarrow> \<forall>s' \<in> set (trav INITIAL_NODES). dfs (steps_of s) trav 0 s' [] 0 = Inr None
     | Some (res, s') \<Rightarrow>
         \<exists>ys zs. trav INITIAL_NODES = ys @ s' # zs
           \<and> dfs (steps_of s) trav 0 s' [] 0 = Inr (Some res)
           \<and> (\<forall>y \<in> set ys. \<forall>r. dfs (steps_of s) trav 0 y [] 0 = Inr (Some r) \<longrightarrow> fst res < fst r)
           \<and> (\<forall>z \<in> set zs. \<forall>r. dfs (steps_of s) trav 0 z [] 0 = Inr (Some r) \<longrightarrow> fst res \<le> fst r)"
    by blast
  have "bo \<noteq> None"
  proof
    assume "bo = None"
    with inv mem have "dfs (steps_of s) trav 0 start [] 0 = Inr None" by simp
    with r' show False by simp
  qed
  then obtain c p e n start' where "bo = Some ((c, p, e, n), start')"
    by (cases bo) auto
  with f assms(2) show ?thesis
    by (simp add: solve_def)
qed

lemma update_absent:
  "map_of ext key = None \<Longrightarrow> AList.update key v ext = ext @ [(key, v)]"
  by (induction ext) (auto split: if_splits)

lemma completion_tags:
  "legal_completion steps cur ext cnt p \<Longrightarrow> \<forall>t \<in> set p. is_synthesized t \<longrightarrow> is_added t"
proof (induction steps arbitrary: cur ext cnt p)
  case Nil
  then show ?case by simp
next
  case (Cons st rest)
  from completion_ConsD [OF Cons.prems] Cons.IH show ?case by fastforce
qed

lemma visited_undefined_keys:
  "visited steps trav start key \<Longrightarrow> undefined_keys (fst (snd (snd key)))"
proof (induction rule: visited.induct)
  case first
  show ?case by (simp add: undefined_keys_def)
next
  case (call i current_node extra_transitions new_node_count k t et cnt)
  obtain inp req_out where st: "steps ! i = (inp, req_out)" by (cases "steps ! i")
  from moves_cases [OF call.hyps(3) [unfolded st]] call.IH show ?case
    by (auto simp: undefined_keys_update)
qed

lemma take_move_Some:
  "call m = Inr (Some r) \<Longrightarrow>
   take_move call m (Inr b) =
     Inr (improve b (fst m + fst r, fst (snd m) # fst (snd r), snd (snd r)))"
  by (cases r) (simp add: take_move_eq try_branch_def)

lemma take_move_None:
  "call m = Inr None \<Longrightarrow> take_move call m (Inr b) = Inr b"
  by (simp add: take_move_eq try_branch_def)

lemma fold_take_move_first:
  assumes "\<And>m. m \<in> set ms \<Longrightarrow> \<exists>r. call m = Inr r"
  shows "\<exists>bo. fold (take_move call) ms (Inr None) = Inr bo \<and>
    (case bo of
       None \<Rightarrow> \<forall>m \<in> set ms. call m = Inr None
     | Some res \<Rightarrow>
         \<exists>ms1 m ms2 r. ms = ms1 @ m # ms2 \<and> call m = Inr (Some r)
           \<and> res = (fst m + fst r, fst (snd m) # fst (snd r), snd (snd r))
           \<and> (\<forall>m' \<in> set ms1. \<forall>r'. call m' = Inr (Some r') \<longrightarrow> fst res < fst m' + fst r')
           \<and> (\<forall>m' \<in> set ms2. \<forall>r'. call m' = Inr (Some r') \<longrightarrow> fst res \<le> fst m' + fst r'))"
  using assms
proof (induction ms rule: rev_induct)
  case Nil
  then show ?case by simp
next
  case (snoc x xs)
  let ?inv = "\<lambda>ms bo. case bo of
       None \<Rightarrow> \<forall>m \<in> set ms. call m = Inr None
     | Some res \<Rightarrow>
         \<exists>ms1 m ms2 r. ms = ms1 @ m # ms2 \<and> call m = Inr (Some r)
           \<and> res = (fst m + fst r, fst (snd m) # fst (snd r), snd (snd r))
           \<and> (\<forall>m' \<in> set ms1. \<forall>r'. call m' = Inr (Some r') \<longrightarrow> fst res < fst m' + fst r')
           \<and> (\<forall>m' \<in> set ms2. \<forall>r'. call m' = Inr (Some r') \<longrightarrow> fst res \<le> fst m' + fst r')"
  have "\<And>m. m \<in> set xs \<Longrightarrow> \<exists>r. call m = Inr r"
    using snoc.prems by simp
  from snoc.IH [OF this] obtain bo where
    f: "fold (take_move call) xs (Inr None) = Inr bo" and inv: "?inv xs bo"
    by blast
  from snoc.prems [of x] obtain rx where rx: "call x = Inr rx" by auto
  have step: "fold (take_move call) (xs @ [x]) (Inr None) = take_move call x (Inr bo)"
    by (simp add: f)
  have "\<exists>bo'. take_move call x (Inr bo) = Inr bo' \<and> ?inv (xs @ [x]) bo'"
  proof (cases rx)
    case None
    have "?inv (xs @ [x]) bo"
    proof (cases bo)
      case None
      with inv rx \<open>rx = None\<close> show ?thesis by simp
    next
      case (Some res)
      with inv obtain ms1 m ms2 r where
        "xs = ms1 @ m # ms2" "call m = Inr (Some r)"
        "res = (fst m + fst r, fst (snd m) # fst (snd r), snd (snd r))"
        "\<forall>m' \<in> set ms1. \<forall>r'. call m' = Inr (Some r') \<longrightarrow> fst res < fst m' + fst r'"
        "\<forall>m' \<in> set ms2. \<forall>r'. call m' = Inr (Some r') \<longrightarrow> fst res \<le> fst m' + fst r'"
        by auto
      with rx \<open>rx = None\<close> have
        "xs @ [x] = ms1 @ m # (ms2 @ [x]) \<and> call m = Inr (Some r)
          \<and> res = (fst m + fst r, fst (snd m) # fst (snd r), snd (snd r))
          \<and> (\<forall>m' \<in> set ms1. \<forall>r'. call m' = Inr (Some r') \<longrightarrow> fst res < fst m' + fst r')
          \<and> (\<forall>m' \<in> set (ms2 @ [x]). \<forall>r'. call m' = Inr (Some r') \<longrightarrow> fst res \<le> fst m' + fst r')"
        by simp
      then show ?thesis unfolding Some by (simp only: option.case) blast
    qed
    with rx None show ?thesis by (simp add: take_move_None)
  next
    case (Some r)
    note rxs = this
    let ?new = "(fst x + fst r, fst (snd x) # fst (snd r), snd (snd r))"
    have newinv: "\<forall>m' \<in> set xs. \<forall>r'. call m' = Inr (Some r') \<longrightarrow> fst ?new < fst m' + fst r'
      \<Longrightarrow> ?inv (xs @ [x]) (Some ?new)"
    proof -
      assume "\<forall>m' \<in> set xs. \<forall>r'. call m' = Inr (Some r') \<longrightarrow> fst ?new < fst m' + fst r'"
      with rx rxs have
        "xs @ [x] = xs @ x # [] \<and> call x = Inr (Some r)
          \<and> ?new = (fst x + fst r, fst (snd x) # fst (snd r), snd (snd r))
          \<and> (\<forall>m' \<in> set xs. \<forall>r'. call m' = Inr (Some r') \<longrightarrow> fst ?new < fst m' + fst r')
          \<and> (\<forall>m' \<in> set []. \<forall>r'. call m' = Inr (Some r') \<longrightarrow> fst ?new \<le> fst m' + fst r')"
        by simp
      then show ?thesis by (simp only: option.case) blast
    qed
    show ?thesis
    proof (cases bo)
      case None
      with inv have "\<forall>m' \<in> set xs. \<forall>r'. call m' = Inr (Some r') \<longrightarrow> fst ?new < fst m' + fst r'"
        by simp
      from newinv [OF this] rx rxs None show ?thesis
        by (simp add: take_move_Some improve_def)
    next
      case (Some res)
      with inv obtain ms1 m ms2 r0 where
        xs: "xs = ms1 @ m # ms2" and cm: "call m = Inr (Some r0)"
        and res: "res = (fst m + fst r0, fst (snd m) # fst (snd r0), snd (snd r0))"
        and before: "\<forall>m' \<in> set ms1. \<forall>r'. call m' = Inr (Some r') \<longrightarrow> fst res < fst m' + fst r'"
        and after: "\<forall>m' \<in> set ms2. \<forall>r'. call m' = Inr (Some r') \<longrightarrow> fst res \<le> fst m' + fst r'"
        by auto
      show ?thesis
      proof (cases "fst ?new < fst res")
        case True
        have "\<forall>m' \<in> set xs. \<forall>r'. call m' = Inr (Some r') \<longrightarrow> fst ?new < fst m' + fst r'"
        proof (intro ballI allI impI)
          fix m' r'
          assume y: "m' \<in> set xs" "call m' = Inr (Some r')"
          then consider "m' \<in> set ms1" | "m' = m" | "m' \<in> set ms2" by (auto simp: xs)
          then show "fst ?new < fst m' + fst r'"
          proof cases
            case 1
            with before y True show ?thesis by fastforce
          next
            case 2
            with cm y True res show ?thesis by simp
          next
            case 3
            with after y True show ?thesis by fastforce
          qed
        qed
        from newinv [OF this] rx rxs Some True show ?thesis
          by (simp add: take_move_Some improve_def)
      next
        case False
        from False rx rxs after have
          "\<forall>m' \<in> set (ms2 @ [x]). \<forall>r'. call m' = Inr (Some r') \<longrightarrow> fst res \<le> fst m' + fst r'"
          by auto
        with xs cm res before have
          "xs @ [x] = ms1 @ m # (ms2 @ [x]) \<and> call m = Inr (Some r0)
            \<and> res = (fst m + fst r0, fst (snd m) # fst (snd r0), snd (snd r0))
            \<and> (\<forall>m' \<in> set ms1. \<forall>r'. call m' = Inr (Some r') \<longrightarrow> fst res < fst m' + fst r')
            \<and> (\<forall>m' \<in> set (ms2 @ [x]). \<forall>r'. call m' = Inr (Some r') \<longrightarrow> fst res \<le> fst m' + fst r')"
          by simp
        then have "?inv (xs @ [x]) (Some res)" by (simp only: option.case) blast
        with rx rxs Some False show ?thesis
          by (simp add: take_move_Some improve_def)
      qed
    qed
  qed
  then show ?case unfolding step by blast
qed

lemma dfs_first:
  assumes "i < length steps" and "dfs steps trav i cur ext cnt = Inr (Some res)"
  shows "\<exists>ms1 m ms2 r. moves trav (steps ! i) cur ext cnt = ms1 @ m # ms2
    \<and> callee steps trav i m = Inr (Some r)
    \<and> res = (fst m + fst r, fst (snd m) # fst (snd r), snd (snd r))
    \<and> (\<forall>m' \<in> set ms1. \<forall>r'. callee steps trav i m' = Inr (Some r') \<longrightarrow> fst res < fst m' + fst r')
    \<and> (\<forall>m' \<in> set ms2. \<forall>r'. callee steps trav i m' = Inr (Some r') \<longrightarrow> fst res \<le> fst m' + fst r')"
proof -
  let ?ms = "moves trav (steps ! i) cur ext cnt"
  have ret: "\<And>m. m \<in> set ?ms \<Longrightarrow> \<exists>r. callee steps trav i m = Inr r"
  proof -
    fix m :: move
    obtain k t et cnt' where m: "m = (k, t, et, cnt')" by (cases m)
    from dfs_returns [of "i + 1" steps trav "destination t" et cnt'] assms(1)
    show "\<exists>r. callee steps trav i m = Inr r"
      by (simp add: m callee_def)
  qed
  from fold_take_move_first [of ?ms "callee steps trav i", OF ret] assms(2) show ?thesis
    by (simp add: dfs_unfold [OF assms(1)])
qed

section \<open>The claims of the specification\<close>

text \<open>The traversals used in the examples: the order of the list and its reverse.\<close>

lemma traversal_id: "traversal id"
  by (simp add: traversal_def)

lemma traversal_rev: "traversal rev"
  by (simp add: traversal_def)

lemma solve_example:
  "solve id ''001010010101'' = Inr (Report
     \<lparr>total_extra_cost = 4, extra_path_count = 3, total_new_nodes = 1,
      best_path = [(''S0'', ''00'', CHR ''1'', ''N1'', True, True),
                   (''N1'', ''01'', CHR ''0'', ''N1'', True, False),
                   (''N1'', ''01'', CHR ''0'', ''N1'', False, False),
                   (''N1'', ''10'', CHR ''1'', ''S0'', True, False)],
      start_node = ''S0'',
      extra_transitions_used = [((''S0'', ''00''), ''N1'', CHR ''1''),
                                ((''N1'', ''01''), ''N1'', CHR ''0''),
                                ((''N1'', ''10''), ''S0'', CHR ''1'')]\<rparr>)"
  by code_simp

lemma solve_example_short:
  "solve id ''010011'' = Inr (Report
     \<lparr>total_extra_cost = 1, extra_path_count = 1, total_new_nodes = 0,
      best_path = [(''S2'', ''01'', CHR ''0'', ''S0'', True, False),
                   (''S0'', ''01'', CHR ''1'', ''S1'', False, False)],
      start_node = ''S2'',
      extra_transitions_used = [((''S2'', ''01''), ''S0'', CHR ''0'')]\<rparr>)"
  by code_simp

lemma solve_example_id:
  "solve id ''000'' = Inr (Report
     \<lparr>total_extra_cost = 1, extra_path_count = 1, total_new_nodes = 0,
      best_path = [(''S0'', ''00'', CHR ''0'', ''S0'', True, False)],
      start_node = ''S0'',
      extra_transitions_used = [((''S0'', ''00''), ''S0'', CHR ''0'')]\<rparr>)"
  by code_simp

lemma solve_example_rev:
  "solve rev ''000'' = Inr (Report
     \<lparr>total_extra_cost = 1, extra_path_count = 1, total_new_nodes = 0,
      best_path = [(''S3'', ''00'', CHR ''0'', ''S3'', True, False)],
      start_node = ''S3'',
      extra_transitions_used = [((''S3'', ''00''), ''S3'', CHR ''0'')]\<rparr>)"
  by code_simp

lemma steps_of_example:
  "steps_of ''001010010101'' =
     [(''00'', CHR ''1''), (''01'', CHR ''0''), (''01'', CHR ''0''), (''10'', CHR ''1'')]"
  by code_simp

text \<open>C1. When \<^verbatim>\<open>solve\<close> returns a result, the cost it reports is the cost (added
  transitions plus synthesized states) of a legal completion from a pre-defined start
  node, and no legal completion from any pre-defined start node is cheaper. The start
  node adds nothing to the cost. This holds for every traversal order of the sets.\<close>

theorem solve_cost_minimum:
  assumes "traversal trav" and "solve trav s = Inr (Report r)"
  shows "(\<exists>start \<in> set INITIAL_NODES. \<exists>p. legal_completion (steps_of s) start [] 0 p
            \<and> completion_cost p = total_extra_cost r)
    \<and> (\<forall>start \<in> set INITIAL_NODES. \<forall>p. legal_completion (steps_of s) start [] 0 p
            \<longrightarrow> total_extra_cost r \<le> completion_cost p)"
proof
  from solve_completion [OF assms] show
    "\<exists>start \<in> set INITIAL_NODES. \<exists>p. legal_completion (steps_of s) start [] 0 p
            \<and> completion_cost p = total_extra_cost r"
    by (intro bexI [of _ "start_node r"] exI [of _ "best_path r"]) simp_all
next
  show "\<forall>start \<in> set INITIAL_NODES. \<forall>p. legal_completion (steps_of s) start [] 0 p
            \<longrightarrow> total_extra_cost r \<le> completion_cost p"
    using solve_least [OF assms] by blast
qed

text \<open>The trace \<^verbatim>\<open>001010010101\<close>: the result costs 4, and the legal completion from
  \<^verbatim>\<open>S1\<close> that creates three nodes costs 7.\<close>

theorem solve_cost_minimum_witness:
  "traversal id
   \<and> solve id ''001010010101'' = Inr (Report
     \<lparr>total_extra_cost = 4, extra_path_count = 3, total_new_nodes = 1,
      best_path = [(''S0'', ''00'', CHR ''1'', ''N1'', True, True),
                   (''N1'', ''01'', CHR ''0'', ''N1'', True, False),
                   (''N1'', ''01'', CHR ''0'', ''N1'', False, False),
                   (''N1'', ''10'', CHR ''1'', ''S0'', True, False)],
      start_node = ''S0'',
      extra_transitions_used = [((''S0'', ''00''), ''N1'', CHR ''1''),
                                ((''N1'', ''01''), ''N1'', CHR ''0''),
                                ((''N1'', ''10''), ''S0'', CHR ''1'')]\<rparr>)
   \<and> (\<exists>start \<in> set INITIAL_NODES. \<exists>p.
        legal_completion (steps_of ''001010010101'') start [] 0 p \<and> completion_cost p = 4)
   \<and> ''S1'' \<in> set INITIAL_NODES
   \<and> legal_completion (steps_of ''001010010101'') ''S1'' [] 0
        [(''S1'', ''00'', CHR ''1'', ''N1'', True, True),
         (''N1'', ''01'', CHR ''0'', ''N2'', True, True),
         (''N2'', ''01'', CHR ''0'', ''N3'', True, True),
         (''N3'', ''10'', CHR ''1'', ''S0'', True, False)]
   \<and> (4::nat) \<le> completion_cost
        [(''S1'', ''00'', CHR ''1'', ''N1'', True, True),
         (''N1'', ''01'', CHR ''0'', ''N2'', True, True),
         (''N2'', ''01'', CHR ''0'', ''N3'', True, True),
         (''N3'', ''10'', CHR ''1'', ''S0'', True, False)]"
proof -
  let ?p = "[(''S1'', ''00'', CHR ''1'', ''N1'', True, True),
         (''N1'', ''01'', CHR ''0'', ''N2'', True, True),
         (''N2'', ''01'', CHR ''0'', ''N3'', True, True),
         (''N3'', ''10'', CHR ''1'', ''S0'', True, False)]"
  have s: "''S1'' \<in> set INITIAL_NODES"
    by (simp add: INITIAL_NODES_def DEFINED_TRANSITIONS_def)
  have lc: "legal_completion (steps_of ''001010010101'') ''S1'' [] 0 ?p"
    by code_simp
  from solve_cost_minimum [OF traversal_id solve_example] have
    a: "\<exists>start \<in> set INITIAL_NODES. \<exists>p.
        legal_completion (steps_of ''001010010101'') start [] 0 p \<and> completion_cost p = 4"
    and b: "\<forall>start \<in> set INITIAL_NODES. \<forall>p.
        legal_completion (steps_of ''001010010101'') start [] 0 p \<longrightarrow> 4 \<le> completion_cost p"
    by simp_all
  from b s lc have "4 \<le> completion_cost ?p" by blast
  with a s lc traversal_id solve_example show ?thesis by blast
qed


text \<open>C2. Replaying the returned path from the returned start node, each input looked
  up in the pre-defined table extended by the returned extra transitions, succeeds and
  produces the required output of every step; the inputs of the path are those of the
  trace.\<close>

theorem solve_replay:
  assumes "traversal trav" and "solve trav s = Inr (Report r)"
  shows "replay (extra_transitions_used r) (start_node r) (best_path r) = Some (map snd (steps_of s))
    \<and> map (\<lambda>(frm, inp, rest). inp) (best_path r) = map fst (steps_of s)"
proof -
  from solve_completion [OF assms] have
    c: "legal_completion (steps_of s) (start_node r) [] 0 (best_path r)"
    and e: "extra_transitions_used r = final_extra [] (best_path r)"
    by simp_all
  have "undefined_keys []" by (simp add: undefined_keys_def)
  from final_extra_undefined [OF c this] have "undefined_keys (extra_transitions_used r)"
    by (simp add: e)
  from completion_replay [OF c _ this] show ?thesis
    by (simp add: e)
qed

text \<open>The replay of the path found for \<^verbatim>\<open>001010010101\<close> outputs \<^verbatim>\<open>1001\<close>.\<close>

theorem solve_replay_witness:
  "traversal id
   \<and> solve id ''001010010101'' = Inr (Report
     \<lparr>total_extra_cost = 4, extra_path_count = 3, total_new_nodes = 1,
      best_path = [(''S0'', ''00'', CHR ''1'', ''N1'', True, True),
                   (''N1'', ''01'', CHR ''0'', ''N1'', True, False),
                   (''N1'', ''01'', CHR ''0'', ''N1'', False, False),
                   (''N1'', ''10'', CHR ''1'', ''S0'', True, False)],
      start_node = ''S0'',
      extra_transitions_used = [((''S0'', ''00''), ''N1'', CHR ''1''),
                                ((''N1'', ''01''), ''N1'', CHR ''0''),
                                ((''N1'', ''10''), ''S0'', CHR ''1'')]\<rparr>)
   \<and> replay [((''S0'', ''00''), ''N1'', CHR ''1''),
              ((''N1'', ''01''), ''N1'', CHR ''0''),
              ((''N1'', ''10''), ''S0'', CHR ''1'')] ''S0''
         [(''S0'', ''00'', CHR ''1'', ''N1'', True, True),
          (''N1'', ''01'', CHR ''0'', ''N1'', True, False),
          (''N1'', ''01'', CHR ''0'', ''N1'', False, False),
          (''N1'', ''10'', CHR ''1'', ''S0'', True, False)] = Some ''1001''
   \<and> map (\<lambda>(frm, inp, rest). inp)
         [(''S0'', ''00'', CHR ''1'', ''N1'', True, True),
          (''N1'', ''01'', CHR ''0'', ''N1'', True, False),
          (''N1'', ''01'', CHR ''0'', ''N1'', False, False),
          (''N1'', ''10'', CHR ''1'', ''S0'', True, False)] = [''00'', ''01'', ''01'', ''10'']"
  using solve_replay [OF traversal_id solve_example] traversal_id solve_example
  by (simp add: steps_of_example)


text \<open>A single search can fail: from \<^verbatim>\<open>S2\<close> the input \<^verbatim>\<open>00\<close> has the pre-defined
  output \<^verbatim>\<open>1\<close>, so no transition can be added when \<^verbatim>\<open>0\<close> is required.\<close>

lemma dfs_dead_end: "dfs (steps_of ''000'') id 0 ''S2'' [] 0 = Inr None"
  by code_simp



text \<open>C4. The reported cost (Extra Cost) is the number of path entries tagged as extra
  (Extra Path) plus the number of new nodes (Extra Node); the latter is the number of
  entries tagged as new node, and each of those is an extra entry as well.\<close>

theorem cost_is_paths_plus_nodes:
  assumes "traversal trav" and "solve trav s = Inr (Report r)"
  shows "total_extra_cost r = extra_path_count r + total_new_nodes r
    \<and> extra_path_count r = length (filter is_added (best_path r))
    \<and> total_new_nodes r = length (filter is_synthesized (best_path r))
    \<and> (\<forall>t \<in> set (best_path r). is_synthesized t \<longrightarrow> is_added t)"
proof -
  from solve_completion [OF assms] have
    c: "legal_completion (steps_of s) (start_node r) [] 0 (best_path r)"
    and "total_extra_cost r = completion_cost (best_path r)"
    and "total_new_nodes r = length (filter is_synthesized (best_path r))"
    by simp_all
  moreover from solve_Report [OF assms(2)]
  have "extra_path_count r = length (filter is_added (best_path r))" by simp
  ultimately show ?thesis
    using completion_tags [OF c] by (simp add: completion_cost_def)
qed

text \<open>For \<^verbatim>\<open>001010010101\<close>: cost 4, three extra transitions, one new node, created
  by an extra transition.\<close>

theorem cost_is_paths_plus_nodes_witness:
  "traversal id
   \<and> solve id ''001010010101'' = Inr (Report
     \<lparr>total_extra_cost = 4, extra_path_count = 3, total_new_nodes = 1,
      best_path = [(''S0'', ''00'', CHR ''1'', ''N1'', True, True),
                   (''N1'', ''01'', CHR ''0'', ''N1'', True, False),
                   (''N1'', ''01'', CHR ''0'', ''N1'', False, False),
                   (''N1'', ''10'', CHR ''1'', ''S0'', True, False)],
      start_node = ''S0'',
      extra_transitions_used = [((''S0'', ''00''), ''N1'', CHR ''1''),
                                ((''N1'', ''01''), ''N1'', CHR ''0''),
                                ((''N1'', ''10''), ''S0'', CHR ''1'')]\<rparr>)
   \<and> (4::nat) = 3 + 1
   \<and> (3::nat) = length (filter is_added
         [(''S0'', ''00'', CHR ''1'', ''N1'', True, True),
          (''N1'', ''01'', CHR ''0'', ''N1'', True, False),
          (''N1'', ''01'', CHR ''0'', ''N1'', False, False),
          (''N1'', ''10'', CHR ''1'', ''S0'', True, False)])
   \<and> (1::nat) = length (filter is_synthesized
         [(''S0'', ''00'', CHR ''1'', ''N1'', True, True),
          (''N1'', ''01'', CHR ''0'', ''N1'', True, False),
          (''N1'', ''01'', CHR ''0'', ''N1'', False, False),
          (''N1'', ''10'', CHR ''1'', ''S0'', True, False)])
   \<and> is_synthesized (''S0'', ''00'', CHR ''1'', ''N1'', True, True)
   \<and> is_added (''S0'', ''00'', CHR ''1'', ''N1'', True, True)"
  using cost_is_paths_plus_nodes [OF traversal_id solve_example] traversal_id solve_example
  by simp


text \<open>C5. At every call of the search the extra transitions hold no key that the
  pre-defined table defines, and each call the body makes either passes them on
  unchanged or appends one entry for (current node, input), which it does only when
  neither the pre-defined table nor the extra transitions have that key: no entry is
  overwritten.\<close>

theorem extension_set_invariant:
  assumes "visited steps trav start (i, current_node, extra_transitions, new_node_count)"
  shows "undefined_keys extra_transitions
    \<and> (i < length steps \<longrightarrow>
        (\<forall>(k, t, et, cnt) \<in> set (moves trav (steps ! i) current_node extra_transitions new_node_count).
           et = extra_transitions
           \<or> (defined_lookup current_node (fst (steps ! i)) = None
              \<and> map_of extra_transitions (current_node, fst (steps ! i)) = None
              \<and> et = extra_transitions
                    @ [((current_node, fst (steps ! i)), (destination t, snd (steps ! i)))])))"
proof
  from visited_undefined_keys [OF assms] show "undefined_keys extra_transitions" by simp
next
  obtain inp req_out where st: "steps ! i = (inp, req_out)" by (cases "steps ! i")
  have "\<And>k t et cnt.
    (k, t, et, cnt) \<in> set (moves trav (inp, req_out) current_node extra_transitions new_node_count)
    \<Longrightarrow> et = extra_transitions
      \<or> (defined_lookup current_node inp = None
          \<and> map_of extra_transitions (current_node, inp) = None
          \<and> et = extra_transitions @ [((current_node, inp), (destination t, req_out))])"
  proof -
    fix k t et cnt
    assume "(k, t, et, cnt) \<in> set (moves trav (inp, req_out) current_node extra_transitions new_node_count)"
    from moves_cases [OF this] show "et = extra_transitions
      \<or> (defined_lookup current_node inp = None
          \<and> map_of extra_transitions (current_node, inp) = None
          \<and> et = extra_transitions @ [((current_node, inp), (destination t, req_out))])"
      by (auto simp: update_absent destination_def)
  qed
  note step = this
  show "i < length steps \<longrightarrow>
        (\<forall>(k, t, et, cnt) \<in> set (moves trav (steps ! i) current_node extra_transitions new_node_count).
           et = extra_transitions
           \<or> (defined_lookup current_node (fst (steps ! i)) = None
              \<and> map_of extra_transitions (current_node, fst (steps ! i)) = None
              \<and> et = extra_transitions
                    @ [((current_node, fst (steps ! i)), (destination t, snd (steps ! i)))]))"
  proof (intro impI ballI)
    fix m
    assume m: "m \<in> set (moves trav (steps ! i) current_node extra_transitions new_node_count)"
    obtain k t et cnt where mm: "m = (k, t, et, cnt)" by (cases m)
    from step [of k t et cnt] m
    show "case m of (k, t, et, cnt) \<Rightarrow>
           et = extra_transitions
           \<or> (defined_lookup current_node (fst (steps ! i)) = None
              \<and> map_of extra_transitions (current_node, fst (steps ! i)) = None
              \<and> et = extra_transitions
                    @ [((current_node, fst (steps ! i)), (destination t, snd (steps ! i)))])"
      by (simp add: mm st)
  qed
qed

lemma steps_of_example2: "steps_of ''000000'' = [(''00'', CHR ''0''), (''00'', CHR ''0'')]"
  by code_simp

lemma visited_example:
  "visited (steps_of ''000000'') id ''S0'' (1, ''S1'', [((''S0'', ''00''), (''S1'', CHR ''0''))], 0)"
proof -
  have v0: "visited (steps_of ''000000'') id ''S0'' (0, ''S0'', [], 0)"
    by (rule visited.first)
  have l: "0 < length (steps_of ''000000'')"
    by (simp add: steps_of_example2)
  have m: "(1, (''S0'', ''00'', CHR ''0'', ''S1'', True, False),
      [((''S0'', ''00''), (''S1'', CHR ''0''))], 0)
    \<in> set (moves id (steps_of ''000000'' ! 0) ''S0'' [] 0)"
    by (simp add: steps_of_example2 moves_def defined_lookup_def DEFINED_TRANSITIONS_def
        available_nodes_def INITIAL_NODES_def)
  from visited.call [OF v0 l m] show ?thesis
    by (simp add: destination_def)
qed

text \<open>After the first step of \<^verbatim>\<open>000000\<close> from \<^verbatim>\<open>S0\<close> to \<^verbatim>\<open>S1\<close>: the call that adds
  the transition from \<^verbatim>\<open>S1\<close> to \<^verbatim>\<open>S0\<close> appends it, and neither table had the key.\<close>

theorem extension_set_invariant_witness:
  "visited (steps_of ''000000'') id ''S0'' (1, ''S1'', [((''S0'', ''00''), (''S1'', CHR ''0''))], 0)
   \<and> undefined_keys [((''S0'', ''00''), (''S1'', CHR ''0''))]
   \<and> (1::nat) < length (steps_of ''000000'')
   \<and> (1, (''S1'', ''00'', CHR ''0'', ''S0'', True, False),
        [((''S0'', ''00''), ''S1'', CHR ''0''), ((''S1'', ''00''), ''S0'', CHR ''0'')], 0)
      \<in> set (moves id (steps_of ''000000'' ! 1) ''S1'' [((''S0'', ''00''), (''S1'', CHR ''0''))] 0)
   \<and> defined_lookup ''S1'' ''00'' = None
   \<and> map_of [((''S0'', ''00''), (''S1'', CHR ''0''))] (''S1'', ''00'') = None"
proof -
  let ?E = "[((''S0'', ''00''), (''S1'', CHR ''0''))]"
  let ?m = "(1::nat, (''S1'', ''00'', CHR ''0'', ''S0'', True, False),
        [((''S0'', ''00''), ''S1'', CHR ''0''), ((''S1'', ''00''), ''S0'', CHR ''0'')], 0::nat)"
  have l: "(1::nat) < length (steps_of ''000000'')"
    by (simp add: steps_of_example2)
  have m: "?m \<in> set (moves id (steps_of ''000000'' ! 1) ''S1'' ?E 0)"
    by (simp add: steps_of_example2 moves_def defined_lookup_def DEFINED_TRANSITIONS_def
        available_nodes_def INITIAL_NODES_def)
  from extension_set_invariant [OF visited_example] have
    u: "undefined_keys ?E"
    and c: "1 < length (steps_of ''000000'') \<longrightarrow>
        (\<forall>(k, t, et, cnt) \<in> set (moves id (steps_of ''000000'' ! 1) ''S1'' ?E 0).
           et = ?E
           \<or> (defined_lookup ''S1'' (fst (steps_of ''000000'' ! 1)) = None
              \<and> map_of ?E (''S1'', fst (steps_of ''000000'' ! 1)) = None
              \<and> et = ?E @ [((''S1'', fst (steps_of ''000000'' ! 1)),
                        (destination t, snd (steps_of ''000000'' ! 1)))]))"
    by blast+
  from c l m have "defined_lookup ''S1'' (fst (steps_of ''000000'' ! 1)) = None
              \<and> map_of ?E (''S1'', fst (steps_of ''000000'' ! 1)) = None"
    by fastforce
  then have "defined_lookup ''S1'' ''00'' = None \<and> map_of ?E (''S1'', ''00'') = None"
    by (simp add: steps_of_example2)
  with visited_example u l m show ?thesis by blast
qed


text \<open>C6, as the specification states it, does not hold: the path chosen among
  equal-cost options depends on the order in which the sets are traversed. On the
  trace \<^verbatim>\<open>000\<close> two traversal orders give two different paths of the same cost.\<close>

theorem tie_break_follows_set_traversal:
  "traversal id \<and> traversal rev
   \<and> solve id ''000'' = Inr (Report
       \<lparr>total_extra_cost = 1, extra_path_count = 1, total_new_nodes = 0,
        best_path = [(''S0'', ''00'', CHR ''0'', ''S0'', True, False)],
        start_node = ''S0'',
        extra_transitions_used = [((''S0'', ''00''), ''S0'', CHR ''0'')]\<rparr>)
   \<and> solve rev ''000'' = Inr (Report
       \<lparr>total_extra_cost = 1, extra_path_count = 1, total_new_nodes = 0,
        best_path = [(''S3'', ''00'', CHR ''0'', ''S3'', True, False)],
        start_node = ''S3'',
        extra_transitions_used = [((''S3'', ''00''), ''S3'', CHR ''0'')]\<rparr>)
   \<and> solve id ''000'' \<noteq> solve rev ''000''"
  by (simp add: traversal_id traversal_rev solve_example_id solve_example_rev)

text \<open>C6, amended. Among equal-cost options the one met first is kept, since a candidate
  replaces the best only when it is strictly cheaper. The returned start node is the
  first node, in the traversal order of \<^verbatim>\<open>INITIAL_NODES\<close>, whose search reaches the
  reported cost, and each result of \<^verbatim>\<open>dfs\<close> comes from the first of its calls, in the
  order pre-defined, stored, available nodes in traversal order, new node, that reaches
  the cost of the result.\<close>

theorem first_found_wins:
  assumes "solve trav s = Inr (Report r)"
  shows "(\<exists>ys zs. trav INITIAL_NODES = ys @ start_node r # zs
      \<and> dfs (steps_of s) trav 0 (start_node r) [] 0 =
          Inr (Some (total_extra_cost r, best_path r, extra_transitions_used r, total_new_nodes r))
      \<and> (\<forall>y \<in> set ys. \<forall>r'. dfs (steps_of s) trav 0 y [] 0 = Inr (Some r')
            \<longrightarrow> total_extra_cost r < fst r')
      \<and> (\<forall>z \<in> set zs. \<forall>r'. dfs (steps_of s) trav 0 z [] 0 = Inr (Some r')
            \<longrightarrow> total_extra_cost r \<le> fst r'))
    \<and> (\<forall>i current_node extra_transitions new_node_count res.
          i < length (steps_of s) \<longrightarrow>
          dfs (steps_of s) trav i current_node extra_transitions new_node_count = Inr (Some res) \<longrightarrow>
          (\<exists>ms1 m ms2 r'.
              moves trav (steps_of s ! i) current_node extra_transitions new_node_count
                = ms1 @ m # ms2
            \<and> callee (steps_of s) trav i m = Inr (Some r')
            \<and> res = (fst m + fst r', fst (snd m) # fst (snd r'), snd (snd r'))
            \<and> (\<forall>m' \<in> set ms1. \<forall>r''. callee (steps_of s) trav i m' = Inr (Some r'')
                  \<longrightarrow> fst res < fst m' + fst r'')
            \<and> (\<forall>m' \<in> set ms2. \<forall>r''. callee (steps_of s) trav i m' = Inr (Some r'')
                  \<longrightarrow> fst res \<le> fst m' + fst r'')))"
proof
  from solve_Report [OF assms] show "\<exists>ys zs. trav INITIAL_NODES = ys @ start_node r # zs
      \<and> dfs (steps_of s) trav 0 (start_node r) [] 0 =
          Inr (Some (total_extra_cost r, best_path r, extra_transitions_used r, total_new_nodes r))
      \<and> (\<forall>y \<in> set ys. \<forall>r'. dfs (steps_of s) trav 0 y [] 0 = Inr (Some r')
            \<longrightarrow> total_extra_cost r < fst r')
      \<and> (\<forall>z \<in> set zs. \<forall>r'. dfs (steps_of s) trav 0 z [] 0 = Inr (Some r')
            \<longrightarrow> total_extra_cost r \<le> fst r')"
    by blast
next
  show "\<forall>i current_node extra_transitions new_node_count res.
          i < length (steps_of s) \<longrightarrow>
          dfs (steps_of s) trav i current_node extra_transitions new_node_count = Inr (Some res) \<longrightarrow>
          (\<exists>ms1 m ms2 r'.
              moves trav (steps_of s ! i) current_node extra_transitions new_node_count
                = ms1 @ m # ms2
            \<and> callee (steps_of s) trav i m = Inr (Some r')
            \<and> res = (fst m + fst r', fst (snd m) # fst (snd r'), snd (snd r'))
            \<and> (\<forall>m' \<in> set ms1. \<forall>r''. callee (steps_of s) trav i m' = Inr (Some r'')
                  \<longrightarrow> fst res < fst m' + fst r'')
            \<and> (\<forall>m' \<in> set ms2. \<forall>r''. callee (steps_of s) trav i m' = Inr (Some r'')
                  \<longrightarrow> fst res \<le> fst m' + fst r''))"
    by (intro allI impI) (rule dfs_first)
qed

text \<open>For \<^verbatim>\<open>010011\<close> and the traversal that keeps the order of the list, \<^verbatim>\<open>S2\<close> is
  the start node and its first step one of the calls of \<open>moves\<close>.\<close>

theorem first_found_wins_witness:
  "solve id ''010011'' = Inr (Report
     \<lparr>total_extra_cost = 1, extra_path_count = 1, total_new_nodes = 0,
      best_path = [(''S2'', ''01'', CHR ''0'', ''S0'', True, False),
                   (''S0'', ''01'', CHR ''1'', ''S1'', False, False)],
      start_node = ''S2'',
      extra_transitions_used = [((''S2'', ''01''), ''S0'', CHR ''0'')]\<rparr>)
   \<and> (\<exists>ys zs. id INITIAL_NODES = ys @ ''S2'' # zs
      \<and> dfs (steps_of ''010011'') id 0 ''S2'' [] 0 =
          Inr (Some (1, [(''S2'', ''01'', CHR ''0'', ''S0'', True, False),
                         (''S0'', ''01'', CHR ''1'', ''S1'', False, False)],
                     [((''S2'', ''01''), ''S0'', CHR ''0'')], 0))
      \<and> (\<forall>y \<in> set ys. \<forall>r'. dfs (steps_of ''010011'') id 0 y [] 0 = Inr (Some r') \<longrightarrow> 1 < fst r')
      \<and> (\<forall>z \<in> set zs. \<forall>r'. dfs (steps_of ''010011'') id 0 z [] 0 = Inr (Some r') \<longrightarrow> 1 \<le> fst r'))
   \<and> (0::nat) < length (steps_of ''010011'')
   \<and> (\<exists>ms1 m ms2 r'. moves id (steps_of ''010011'' ! 0) ''S2'' [] 0 = ms1 @ m # ms2
      \<and> callee (steps_of ''010011'') id 0 m = Inr (Some r')
      \<and> (1, [(''S2'', ''01'', CHR ''0'', ''S0'', True, False),
              (''S0'', ''01'', CHR ''1'', ''S1'', False, False)],
          [((''S2'', ''01''), ''S0'', CHR ''0'')], 0)
         = (fst m + fst r', fst (snd m) # fst (snd r'), snd (snd r'))
      \<and> (\<forall>m' \<in> set ms1. \<forall>r''. callee (steps_of ''010011'') id 0 m' = Inr (Some r'')
            \<longrightarrow> 1 < fst m' + fst r'')
      \<and> (\<forall>m' \<in> set ms2. \<forall>r''. callee (steps_of ''010011'') id 0 m' = Inr (Some r'')
            \<longrightarrow> 1 \<le> fst m' + fst r''))"
proof -
  note w = first_found_wins [OF solve_example_short]
  have d: "dfs (steps_of ''010011'') id 0 ''S2'' [] 0 =
      Inr (Some (1, [(''S2'', ''01'', CHR ''0'', ''S0'', True, False),
                     (''S0'', ''01'', CHR ''1'', ''S1'', False, False)],
                 [((''S2'', ''01''), ''S0'', CHR ''0'')], 0))"
    by code_simp
  have l: "(0::nat) < length (steps_of ''010011'')"
    by (simp add: length_steps_of)
  have a: "\<exists>ys zs. id INITIAL_NODES = ys @ ''S2'' # zs
      \<and> dfs (steps_of ''010011'') id 0 ''S2'' [] 0 =
          Inr (Some (1, [(''S2'', ''01'', CHR ''0'', ''S0'', True, False),
                         (''S0'', ''01'', CHR ''1'', ''S1'', False, False)],
                     [((''S2'', ''01''), ''S0'', CHR ''0'')], 0))
      \<and> (\<forall>y \<in> set ys. \<forall>r'. dfs (steps_of ''010011'') id 0 y [] 0 = Inr (Some r') \<longrightarrow> 1 < fst r')
      \<and> (\<forall>z \<in> set zs. \<forall>r'. dfs (steps_of ''010011'') id 0 z [] 0 = Inr (Some r') \<longrightarrow> 1 \<le> fst r')"
    using w [THEN conjunct1] by (simp only: report.select_convs)
  have b: "\<exists>ms1 m ms2 r'. moves id (steps_of ''010011'' ! 0) ''S2'' [] 0 = ms1 @ m # ms2
      \<and> callee (steps_of ''010011'') id 0 m = Inr (Some r')
      \<and> (1, [(''S2'', ''01'', CHR ''0'', ''S0'', True, False),
              (''S0'', ''01'', CHR ''1'', ''S1'', False, False)],
          [((''S2'', ''01''), ''S0'', CHR ''0'')], 0)
         = (fst m + fst r', fst (snd m) # fst (snd r'), snd (snd r'))
      \<and> (\<forall>m' \<in> set ms1. \<forall>r''. callee (steps_of ''010011'') id 0 m' = Inr (Some r'')
            \<longrightarrow> 1 < fst m' + fst r'')
      \<and> (\<forall>m' \<in> set ms2. \<forall>r''. callee (steps_of ''010011'') id 0 m' = Inr (Some r'')
            \<longrightarrow> 1 \<le> fst m' + fst r'')"
    using w [THEN conjunct2, rule_format, OF l d] by (simp only: fst_conv)
  from solve_example_short a l b show ?thesis
    by (intro conjI)
qed

lemma solve_valid_returns:
  assumes "length s mod 3 = 0"
  shows "\<exists>out. solve trav s = Inr out"
proof -
  from fold_try_start [of "steps_of s" trav "trav INITIAL_NODES"] obtain bo where
    "fold (try_start (steps_of s) trav) (trav INITIAL_NODES) (Inr None) = Inr bo"
    by blast
  with assms show ?thesis
    by (cases bo) (auto simp: solve_def)
qed

text \<open>C7. \<^verbatim>\<open>solve\<close> raises exactly when the length of its input is not a multiple of
  3; the exception is then the \<^verbatim>\<open>ValueError\<close> of the length check, which is the first
  statement of the function, so no result is produced.\<close>

theorem solve_invalid_length:
  "((\<exists>e. solve trav s = Inl e) \<longleftrightarrow> length s mod 3 \<noteq> 0)
   \<and> (length s mod 3 \<noteq> 0 \<longrightarrow> solve trav s = Inl ValueError)"
proof -
  have "length s mod 3 \<noteq> 0 \<Longrightarrow> solve trav s = Inl ValueError"
    by (simp add: solve_def)
  moreover have "length s mod 3 = 0 \<Longrightarrow> \<not> (\<exists>e. solve trav s = Inl e)"
    using solve_valid_returns [of s trav] by auto
  ultimately show ?thesis by blast
qed

text \<open>A string of length 4 is refused, one of length 6 is not.\<close>

theorem solve_invalid_length_witness:
  "length ''0101'' mod 3 \<noteq> 0 \<and> solve id ''0101'' = Inl ValueError
   \<and> length ''010011'' mod 3 = 0 \<and> \<not> (\<exists>e. solve id ''010011'' = Inl e)"
  using solve_invalid_length [of id "''0101''"] solve_invalid_length [of id "''010011''"]
  by simp

text \<open>C8. Two runs of \<^verbatim>\<open>solve\<close> on the same valid trace report the same cost. The
  cache of \<^verbatim>\<open>dfs\<close> belongs to the closure one call of \<^verbatim>\<open>solve\<close> creates, so a run
  depends on the trace and on the traversal order of the sets only; the cost is the same
  for any two traversal orders.\<close>

theorem solve_cost_independent_of_traversal:
  assumes "traversal trav" and "traversal trav'" and "length s mod 3 = 0"
  shows "\<exists>r r'. solve trav s = Inr (Report r) \<and> solve trav' s = Inr (Report r')
    \<and> total_extra_cost r = total_extra_cost r'"
proof -
  from solve_finds [OF assms(1,3)] obtain r where r: "solve trav s = Inr (Report r)" by blast
  from solve_finds [OF assms(2,3)] obtain r' where r': "solve trav' s = Inr (Report r')" by blast
  from solve_completion [OF assms(1) r] have
    c: "start_node r \<in> set INITIAL_NODES" "legal_completion (steps_of s) (start_node r) [] 0 (best_path r)"
    "total_extra_cost r = completion_cost (best_path r)" by simp_all
  from solve_completion [OF assms(2) r'] have
    c': "start_node r' \<in> set INITIAL_NODES" "legal_completion (steps_of s) (start_node r') [] 0 (best_path r')"
    "total_extra_cost r' = completion_cost (best_path r')" by simp_all
  from solve_least [OF assms(1) r c'(1,2)] c'(3) have "total_extra_cost r \<le> total_extra_cost r'"
    by simp
  moreover from solve_least [OF assms(2) r' c(1,2)] c(3)
  have "total_extra_cost r' \<le> total_extra_cost r"
    by simp
  ultimately have "total_extra_cost r = total_extra_cost r'" by simp
  with r r' show ?thesis by blast
qed

text \<open>The trace \<^verbatim>\<open>000\<close> under two traversal orders.\<close>

theorem solve_cost_independent_of_traversal_witness:
  "traversal id \<and> traversal rev \<and> length ''000'' mod 3 = 0
   \<and> (\<exists>r r'. solve id ''000'' = Inr (Report r) \<and> solve rev ''000'' = Inr (Report r')
        \<and> total_extra_cost r = total_extra_cost r')"
proof -
  have l: "length ''000'' mod 3 = 0" by simp
  from solve_cost_independent_of_traversal [OF traversal_id traversal_rev l]
    traversal_id traversal_rev l
  show ?thesis by blast
qed

text \<open>C9. For the empty trace \<^verbatim>\<open>solve\<close> reports cost 0 and an empty path, from one of
  the pre-defined nodes; the search from any start node returns cost 0 and an empty
  path.\<close>

theorem solve_empty_trace:
  assumes "traversal trav"
  shows "(\<exists>start \<in> set INITIAL_NODES.
      solve trav [] = Inr (Report
        \<lparr>total_extra_cost = 0, extra_path_count = 0, total_new_nodes = 0, best_path = [],
         start_node = start, extra_transitions_used = []\<rparr>))
    \<and> (\<forall>start. dfs (steps_of []) trav 0 start [] 0 = Inr (Some (0, [], [], 0)))"
proof -
  have d: "\<And>start. dfs (steps_of []) trav 0 start [] 0 = Inr (Some (0, [], [], 0))"
    by (subst dfs.simps) (simp add: steps_of_def)
  from solve_finds [OF assms, of "[]"] obtain r where r: "solve trav [] = Inr (Report r)"
    by auto
  from solve_completion [OF assms r] have st: "start_node r \<in> set INITIAL_NODES" by simp
  from solve_Report [OF r] d have
    "total_extra_cost r = 0" "best_path r = []" "extra_transitions_used r = []"
    "total_new_nodes r = 0" "extra_path_count r = 0"
    by auto
  then have "r = \<lparr>total_extra_cost = 0, extra_path_count = 0, total_new_nodes = 0, best_path = [],
         start_node = start_node r, extra_transitions_used = []\<rparr>"
    by (cases r) simp
  with r have "solve trav [] = Inr (Report
        \<lparr>total_extra_cost = 0, extra_path_count = 0, total_new_nodes = 0, best_path = [],
         start_node = start_node r, extra_transitions_used = []\<rparr>)"
    by simp
  with st d show ?thesis by blast
qed

text \<open>The empty trace with the reversed traversal.\<close>

theorem solve_empty_trace_witness:
  "traversal rev
   \<and> (\<exists>start \<in> set INITIAL_NODES.
      solve rev [] = Inr (Report
        \<lparr>total_extra_cost = 0, extra_path_count = 0, total_new_nodes = 0, best_path = [],
         start_node = start, extra_transitions_used = []\<rparr>))
   \<and> (\<forall>start. dfs (steps_of []) rev 0 start [] 0 = Inr (Some (0, [], [], 0)))"
  using solve_empty_trace [OF traversal_rev] traversal_rev
  by blast

text \<open>C10. The returned path has one transition for each step of the trace, it starts
  at the returned start node and the destination of each transition is the source of
  the next.\<close>

theorem solve_path_shape:
  assumes "traversal trav" and "solve trav s = Inr (Report r)"
  shows "length (best_path r) = length s div 3 \<and> linked (start_node r) (best_path r)"
proof -
  from solve_completion [OF assms] have
    c: "legal_completion (steps_of s) (start_node r) [] 0 (best_path r)" by simp
  from completion_length [OF c] completion_linked [OF c] show ?thesis
    by (simp add: length_steps_of)
qed

text \<open>The path found for \<^verbatim>\<open>001010010101\<close> has four transitions, chained from
  \<^verbatim>\<open>S0\<close>.\<close>

theorem solve_path_shape_witness:
  "traversal id
   \<and> solve id ''001010010101'' = Inr (Report
     \<lparr>total_extra_cost = 4, extra_path_count = 3, total_new_nodes = 1,
      best_path = [(''S0'', ''00'', CHR ''1'', ''N1'', True, True),
                   (''N1'', ''01'', CHR ''0'', ''N1'', True, False),
                   (''N1'', ''01'', CHR ''0'', ''N1'', False, False),
                   (''N1'', ''10'', CHR ''1'', ''S0'', True, False)],
      start_node = ''S0'',
      extra_transitions_used = [((''S0'', ''00''), ''N1'', CHR ''1''),
                                ((''N1'', ''01''), ''N1'', CHR ''0''),
                                ((''N1'', ''10''), ''S0'', CHR ''1'')]\<rparr>)
   \<and> length [(''S0'', ''00'', CHR ''1'', ''N1'', True, True),
              (''N1'', ''01'', CHR ''0'', ''N1'', True, False),
              (''N1'', ''01'', CHR ''0'', ''N1'', False, False),
              (''N1'', ''10'', CHR ''1'', ''S0'', True, False)] = length ''001010010101'' div 3
   \<and> linked ''S0''
        [(''S0'', ''00'', CHR ''1'', ''N1'', True, True),
         (''N1'', ''01'', CHR ''0'', ''N1'', True, False),
         (''N1'', ''01'', CHR ''0'', ''N1'', False, False),
         (''N1'', ''10'', CHR ''1'', ''S0'', True, False)]"
  using solve_path_shape [OF traversal_id solve_example] traversal_id solve_example
  by simp


end
